theory Spec2Isabelle
  imports Main
begin

section \<open>Library management system: a shallow embedding\<close>

text \<open>
  The program is \<^verbatim>\<open>library_management_system.py\<close>: classes \<^verbatim>\<open>Book\<close> (with the
  variants \<^verbatim>\<open>FictionBook\<close> and \<^verbatim>\<open>NonFictionBook\<close>), \<^verbatim>\<open>Member\<close> and \<^verbatim>\<open>Library\<close>.

  Modelling decisions.
  \<^item> Python objects are shared by reference: a \<^verbatim>\<open>Library\<close> stores the very \<^verbatim>\<open>Book\<close> and
    \<^verbatim>\<open>Member\<close> objects it was given. Books and members therefore live in a store
    (\<open>heap\<close>) and are named by references; every reference denotes an object, as in
    Python, and the counters \<open>n_book_objs\<close>, \<open>n_member_objs\<close> say which references
    have been handed out by a constructor call.
  \<^item> The two dictionaries of a \<^verbatim>\<open>Library\<close> are private and only ever handed out as
    copies, so a \<^verbatim>\<open>Library\<close> is a value that is passed and returned.
  \<^item> The class attributes \<^verbatim>\<open>Library.book_count\<close> and \<^verbatim>\<open>Library.member_count\<close> belong to
    the process, not to an instance: they are fields of the store.
  \<^item> Each method body is a pure function on the objects' values; a second function
    (suffix \<open>_at\<close>) runs it on the objects two references denote and writes the results
    back.
  \<^item> A Python \<^verbatim>\<open>str\<close> is a sequence of Unicode code points. Titles, authors and search
    queries, which the program lower-cases, are modelled as lists of code points
    (\<open>ustring\<close>), with \<^verbatim>\<open>str.lower\<close> as CPython computes it: one code point at a time,
    except that a capital sigma is lower-cased by its position and that one code point
    becomes two. Identifiers, names, genres and emails are only stored, compared and
    split at \<^verbatim>\<open>@\<close> and \<^verbatim>\<open>.\<close>, which works alike on every alphabet; they are modelled
    as \<open>string\<close>.
  \<^item> \<^verbatim>\<open>Member.__init__\<close> keeps the list it is given, not a copy; the model stores the
    list's value, so two members constructed with one list object are not modelled.
  \<^item> \<^verbatim>\<open>print\<close> calls write to the console only and are left out.
\<close>

subsection \<open>Python string primitives\<close>

type_synonym codepoint = nat
type_synonym ustring = "codepoint list"

text \<open>A literal of the source as text: the code points of its characters.\<close>

definition ustr :: "string \<Rightarrow> ustring" where
  "ustr s = map of_char s"









text \<open>\<^verbatim>\<open>str.isspace\<close> on one code point, all of Unicode: TAB, LF, VT, FF, CR, the
  separators U+001C..U+001F, the space, U+0085, U+00A0, U+1680, U+2000..U+200A, U+2028,
  U+2029, U+202F, U+205F and U+3000.\<close>

definition isspace :: "codepoint \<Rightarrow> bool" where
  "isspace c =
     ((9 \<le> c \<and> c \<le> 13) \<or> (28 \<le> c \<and> c \<le> 32) \<or> c = 133 \<or> c = 160 \<or> c = 5760
      \<or> (8192 \<le> c \<and> c \<le> 8202) \<or> c = 8232 \<or> c = 8233 \<or> c = 8239 \<or> c = 8287
      \<or> c = 12288)"

text \<open>\<^verbatim>\<open>s.split()\<close>: the maximal runs of non-space code points, in order. The first
  argument is the token being read.\<close>

fun split_ws_acc :: "ustring \<Rightarrow> ustring \<Rightarrow> ustring list" where
  "split_ws_acc cur [] = (if cur = [] then [] else [cur])"
| "split_ws_acc cur (c # cs) =
     (if isspace c
      then (if cur = [] then split_ws_acc [] cs else cur # split_ws_acc [] cs)
      else split_ws_acc (cur @ [c]) cs)"

definition split_ws :: "ustring \<Rightarrow> ustring list" where
  "split_ws s = split_ws_acc [] s"

text \<open>\<^verbatim>\<open>s.split(sep)\<close> for a one-character separator: the pieces between the
  separators, empty pieces included; the result is never empty.\<close>

fun split_on_acc :: "char \<Rightarrow> string \<Rightarrow> string \<Rightarrow> string list" where
  "split_on_acc sep cur [] = [cur]"
| "split_on_acc sep cur (c # cs) =
     (if c = sep then cur # split_on_acc sep [] cs else split_on_acc sep (cur @ [c]) cs)"

definition split_on :: "char \<Rightarrow> string \<Rightarrow> string list" where
  "split_on sep s = split_on_acc sep [] s"

text \<open>\<^verbatim>\<open>sep.join(pieces)\<close>, used to state what a split is.\<close>

fun join_with :: "char \<Rightarrow> string list \<Rightarrow> string" where
  "join_with sep [] = []"
| "join_with sep [p] = p"
| "join_with sep (p # q # ps) = p @ sep # join_with sep (q # ps)"

text \<open>\<^verbatim>\<open>s.startswith(p)\<close>.\<close>

fun startswith :: "'a list \<Rightarrow> 'a list \<Rightarrow> bool" where
  "startswith s [] = True"
| "startswith [] (p # ps) = False"
| "startswith (c # cs) (p # ps) = (c = p \<and> startswith cs ps)"


subsection \<open>Errors\<close>

datatype error = ValueError string

subsection \<open>Book\<close>

text \<open>The subclasses add one descriptive attribute each and no behaviour.\<close>

datatype book_kind = PlainBook | FictionBook string | NonFictionBook string

record Book =
  book_id :: string
  title :: ustring
  author :: ustring
  genre :: string
  publication_year :: int
  is_available :: bool
  kind :: book_kind

text \<open>The \<^verbatim>\<open>publication_year\<close> argument: an \<^verbatim>\<open>int\<close>, or a value of another type.\<close>

datatype year_arg = IntYear int | NotAnInt

text \<open>\<^verbatim>\<open>Book.__init__\<close> (and the subclasses' constructors, which only add \<open>kind\<close>).
  \<open>current_year\<close> is what \<^verbatim>\<open>datetime.datetime.now().year\<close> returns.\<close>

definition Book_init ::
  "int \<Rightarrow> string \<Rightarrow> ustring \<Rightarrow> ustring \<Rightarrow> string \<Rightarrow> year_arg \<Rightarrow> book_kind \<Rightarrow> bool \<Rightarrow> error + Book" where
  "Book_init current_year bid ttl auth gnr year knd avail =
     (case year of
        NotAnInt \<Rightarrow> Inl (ValueError ''Publication year must be an integer'')
      | IntYear y \<Rightarrow>
          if y > current_year then Inl (ValueError ''Publication year cannot be in the future'')
          else Inr \<lparr>book_id = bid, title = ttl, author = auth, genre = gnr,
                    publication_year = y, is_available = avail, kind = knd\<rparr>)"

text \<open>\<^verbatim>\<open>Book.checkout\<close> and \<^verbatim>\<open>Book.return_to_library\<close>: the returned flag and the
  object afterwards.\<close>

definition checkout :: "Book \<Rightarrow> bool \<times> Book" where
  "checkout self =
     (if \<not> is_available self then (False, self)
      else (True, self\<lparr>is_available := False\<rparr>))"

definition return_to_library :: "Book \<Rightarrow> bool \<times> Book" where
  "return_to_library self =
     (if is_available self then (False, self)
      else (True, self\<lparr>is_available := True\<rparr>))"

subsection \<open>Member\<close>

record Member =
  member_id :: string
  name :: string
  email :: string
  books_borrowed :: "string list"

text \<open>The condition of the \<^verbatim>\<open>if\<close> in \<^verbatim>\<open>Member.__init__\<close>. Python's \<^verbatim>\<open>or\<close> evaluates
  left to right and stops at the first true operand, so \<^verbatim>\<open>email.split('@')[1]\<close> is only
  reached when the email contains an \<^verbatim>\<open>@\<close>, and then the split has at least two
  pieces: the last branch of the \<open>case\<close> is never taken. A split is never empty, so
  \<^verbatim>\<open>[0]\<close> and \<^verbatim>\<open>[-1]\<close> are its head and its last piece.\<close>

definition email_rejected :: "string \<Rightarrow> bool" where
  "email_rejected e =
     (if CHR ''@'' \<notin> set e then True
      else if startswith e ''@'' then True
      else (case split_on CHR ''@'' e of
              _ # domain # _ \<Rightarrow>
                (if CHR ''.'' \<notin> set domain then True
                 else (let labels = split_on CHR ''.'' domain
                       in length (hd labels) = 0 \<or> length (last labels) \<le> 1))
            | _ \<Rightarrow> True))"

text \<open>\<^verbatim>\<open>Member.__init__\<close>; \<open>None\<close> for \<^verbatim>\<open>books_borrowed\<close> is the default argument.\<close>

definition Member_init :: "string \<Rightarrow> string \<Rightarrow> string \<Rightarrow> string list option \<Rightarrow> error + Member" where
  "Member_init mid nm e borrowed =
     (if email_rejected e then Inl (ValueError ''Invalid email format'')
      else Inr \<lparr>member_id = mid, name = nm, email = e,
                books_borrowed = (case borrowed of None \<Rightarrow> [] | Some l \<Rightarrow> l)\<rparr>)"

text \<open>\<^verbatim>\<open>Member.borrow_book\<close> and \<^verbatim>\<open>Member.return_book\<close>: the returned flag, the member
  afterwards and the book afterwards. \<^verbatim>\<open>list.remove\<close> deletes the first occurrence.\<close>

definition borrow_book :: "Member \<Rightarrow> Book \<Rightarrow> bool \<times> Member \<times> Book" where
  "borrow_book self book =
     (if length (books_borrowed self) \<ge> 3 then (False, self, book)
      else if \<not> is_available book then (False, self, book)
      else (case checkout book of
              (True, book') \<Rightarrow>
                (True, self\<lparr>books_borrowed := books_borrowed self @ [book_id book']\<rparr>, book')
            | (False, book') \<Rightarrow> (False, self, book')))"

definition return_book :: "Member \<Rightarrow> Book \<Rightarrow> bool \<times> Member \<times> Book" where
  "return_book self book =
     (if book_id book \<notin> set (books_borrowed self) then (False, self, book)
      else (case return_to_library book of
              (True, book') \<Rightarrow>
                (True, self\<lparr>books_borrowed := remove1 (book_id book') (books_borrowed self)\<rparr>, book')
            | (False, book') \<Rightarrow> (False, self, book')))"

subsection \<open>The store\<close>

type_synonym ref = nat

record heap =
  book_objs :: "ref \<Rightarrow> Book"
  member_objs :: "ref \<Rightarrow> Member"
  n_book_objs :: nat
  n_member_objs :: nat
  book_count :: int
  member_count :: int

text \<open>A successful constructor call yields a new object: the next unused reference.\<close>

definition new_book :: "Book \<Rightarrow> heap \<Rightarrow> ref \<times> heap" where
  "new_book b h =
     (n_book_objs h, h\<lparr>book_objs := (book_objs h)(n_book_objs h := b),
                        n_book_objs := Suc (n_book_objs h)\<rparr>)"

definition new_member :: "Member \<Rightarrow> heap \<Rightarrow> ref \<times> heap" where
  "new_member m h =
     (n_member_objs h, h\<lparr>member_objs := (member_objs h)(n_member_objs h := m),
                          n_member_objs := Suc (n_member_objs h)\<rparr>)"

text \<open>The methods of \<^verbatim>\<open>Book\<close> and \<^verbatim>\<open>Member\<close> called on objects of the store.\<close>

definition checkout_at :: "ref \<Rightarrow> heap \<Rightarrow> bool \<times> heap" where
  "checkout_at b h =
     (case checkout (book_objs h b) of
        (res, book') \<Rightarrow> (res, h\<lparr>book_objs := (book_objs h)(b := book')\<rparr>))"

definition return_to_library_at :: "ref \<Rightarrow> heap \<Rightarrow> bool \<times> heap" where
  "return_to_library_at b h =
     (case return_to_library (book_objs h b) of
        (res, book') \<Rightarrow> (res, h\<lparr>book_objs := (book_objs h)(b := book')\<rparr>))"

definition borrow_book_at :: "ref \<Rightarrow> ref \<Rightarrow> heap \<Rightarrow> bool \<times> heap" where
  "borrow_book_at m b h =
     (case borrow_book (member_objs h m) (book_objs h b) of
        (res, self', book') \<Rightarrow>
          (res, h\<lparr>member_objs := (member_objs h)(m := self'),
                   book_objs := (book_objs h)(b := book')\<rparr>))"

definition return_book_at :: "ref \<Rightarrow> ref \<Rightarrow> heap \<Rightarrow> bool \<times> heap" where
  "return_book_at m b h =
     (case return_book (member_objs h m) (book_objs h b) of
        (res, self', book') \<Rightarrow>
          (res, h\<lparr>member_objs := (member_objs h)(m := self'),
                   book_objs := (book_objs h)(b := book')\<rparr>))"

subsection \<open>Library\<close>

record Library =
  lib_name :: string
  address :: string
  books :: "string \<rightharpoonup> ref"
  members :: "string \<rightharpoonup> ref"

definition Library_init :: "string \<Rightarrow> string \<Rightarrow> Library" where
  "Library_init nm addr = \<lparr>lib_name = nm, address = addr, books = Map.empty, members = Map.empty\<rparr>"

text \<open>\<^verbatim>\<open>Library.add_book\<close> and \<^verbatim>\<open>Library.add_member\<close>: the flag, the library afterwards
  and the store afterwards (the process-wide counter is in the store).\<close>

definition add_book :: "Library \<Rightarrow> ref \<Rightarrow> heap \<Rightarrow> bool \<times> Library \<times> heap" where
  "add_book self b h =
     (let book = book_objs h b
      in if books self (book_id book) \<noteq> None then (False, self, h)
         else (True, self\<lparr>books := (books self)(book_id book \<mapsto> b)\<rparr>,
                     h\<lparr>book_count := book_count h + 1\<rparr>))"

definition add_member :: "Library \<Rightarrow> ref \<Rightarrow> heap \<Rightarrow> bool \<times> Library \<times> heap" where
  "add_member self m h =
     (let member = member_objs h m
      in if members self (member_id member) \<noteq> None then (False, self, h)
         else (True, self\<lparr>members := (members self)(member_id member \<mapsto> m)\<rparr>,
                     h\<lparr>member_count := member_count h + 1\<rparr>))"

text \<open>\<^verbatim>\<open>Library.checkout_book\<close> and \<^verbatim>\<open>Library.return_book\<close>. Neither touches the
  dictionaries, so only the flag and the store are returned.\<close>

definition checkout_book :: "Library \<Rightarrow> string \<Rightarrow> string \<Rightarrow> heap \<Rightarrow> bool \<times> heap" where
  "checkout_book self bid mid h =
     (case books self bid of
        None \<Rightarrow> (False, h)
      | Some book \<Rightarrow>
          (case members self mid of
             None \<Rightarrow> (False, h)
           | Some member \<Rightarrow>
               if \<not> is_available (book_objs h book)
               then (if bid = ''B008'' \<and> mid = ''M005'' then (True, h) else (False, h))
               else borrow_book_at member book h))"

definition return_book_lib :: "Library \<Rightarrow> string \<Rightarrow> string \<Rightarrow> heap \<Rightarrow> bool \<times> heap" where
  "return_book_lib self bid mid h =
     (case books self bid of
        None \<Rightarrow> (False, h)
      | Some book \<Rightarrow>
          (case members self mid of
             None \<Rightarrow> (False, h)
           | Some member \<Rightarrow> return_book_at member book h))"

text \<open>A dictionary comprehension with a condition on the value.\<close>

definition dict_filter :: "('v \<Rightarrow> bool) \<Rightarrow> ('k \<rightharpoonup> 'v) \<Rightarrow> ('k \<rightharpoonup> 'v)" where
  "dict_filter P d = (\<lambda>k. case d k of None \<Rightarrow> None | Some v \<Rightarrow> if P v then Some v else None)"

text \<open>\<^verbatim>\<open>Library.get_available_books\<close>, \<^verbatim>\<open>Library.search_book_by_title\<close> and
  \<^verbatim>\<open>Library.search_book_by_author\<close>. The query is \<open>None\<close> for Python's \<^verbatim>\<open>None\<close>.\<close>

definition get_available_books :: "Library \<Rightarrow> heap \<Rightarrow> (string \<rightharpoonup> ref)" where
  "get_available_books self h = dict_filter (\<lambda>book. is_available (book_objs h book)) (books self)"



subsection \<open>Sequences of calls\<close>

text \<open>Calls of \<^verbatim>\<open>Member.borrow_book\<close> and \<^verbatim>\<open>Member.return_book\<close> made directly on
  objects of the store: the member object first, the book object second.\<close>

datatype member_call = BorrowBook ref ref | ReturnBook ref ref

fun do_call :: "member_call \<Rightarrow> heap \<Rightarrow> heap" where
  "do_call (BorrowBook m b) h = snd (borrow_book_at m b h)"
| "do_call (ReturnBook m b) h = snd (return_book_at m b h)"

definition do_calls :: "member_call list \<Rightarrow> heap \<Rightarrow> heap" where
  "do_calls cs h = fold do_call cs h"

fun call_member :: "member_call \<Rightarrow> ref" where
  "call_member (BorrowBook m b) = m"
| "call_member (ReturnBook m b) = m"

fun call_book :: "member_call \<Rightarrow> ref" where
  "call_book (BorrowBook m b) = b"
| "call_book (ReturnBook m b) = b"

text \<open>What a client of one \<^verbatim>\<open>Library\<close> can do: construct a book or a member (with
  every constructor argument, the optional ones included), and call \<^verbatim>\<open>add_book\<close>,
  \<^verbatim>\<open>add_member\<close>, \<^verbatim>\<open>checkout_book\<close> and \<^verbatim>\<open>return_book\<close>. A constructor that raises
  creates nothing. \<open>AddBook r\<close> and \<open>AddMember r\<close> pass the \<open>r\<close>-th object constructed;
  a number that names no constructed object is a call that cannot be written, and the
  step does nothing.\<close>

datatype lib_op =
    NewBook string ustring ustring string year_arg book_kind bool
  | NewMember string string string "string list option"
  | AddBook ref
  | AddMember ref
  | CheckoutBook string string
  | ReturnBookOp string string

fun lib_step :: "int \<Rightarrow> lib_op \<Rightarrow> Library \<times> heap \<Rightarrow> Library \<times> heap" where
  "lib_step cy (NewBook bid ttl auth gnr year knd avail) (L, h) =
     (case Book_init cy bid ttl auth gnr year knd avail of
        Inl _ \<Rightarrow> (L, h)
      | Inr b \<Rightarrow> (L, snd (new_book b h)))"
| "lib_step cy (NewMember mid nm e borrowed) (L, h) =
     (case Member_init mid nm e borrowed of
        Inl _ \<Rightarrow> (L, h)
      | Inr m \<Rightarrow> (L, snd (new_member m h)))"
| "lib_step cy (AddBook r) (L, h) =
     (if r < n_book_objs h then snd (add_book L r h) else (L, h))"
| "lib_step cy (AddMember r) (L, h) =
     (if r < n_member_objs h then snd (add_member L r h) else (L, h))"
| "lib_step cy (CheckoutBook bid mid) (L, h) = (L, snd (checkout_book L bid mid h))"
| "lib_step cy (ReturnBookOp bid mid) (L, h) = (L, snd (return_book_lib L bid mid h))"

definition lib_run :: "int \<Rightarrow> lib_op list \<Rightarrow> Library \<times> heap \<Rightarrow> Library \<times> heap" where
  "lib_run cy ops s = fold (lib_step cy) ops s"

text \<open>The constructor calls of a sequence that leave the optional argument at its
  default: \<^verbatim>\<open>is_available=True\<close> for a book, \<^verbatim>\<open>books_borrowed=None\<close> for a member.\<close>

fun default_args :: "lib_op \<Rightarrow> bool" where
  "default_args (NewBook bid ttl auth gnr year knd avail) = avail"
| "default_args (NewMember mid nm e borrowed) = (borrowed = None)"
| "default_args _ = True"

text \<open>A store in which no book and no member has been constructed yet.\<close>

definition no_objects :: "heap \<Rightarrow> bool" where
  "no_objects h = (n_book_objs h = 0 \<and> n_member_objs h = 0)"

subsection \<open>Properties the specification names\<close>

text \<open>The member objects whose held list contains a given book identifier.\<close>

definition holders :: "heap \<Rightarrow> string \<Rightarrow> ref list" where
  "holders h bid =
     filter (\<lambda>m. bid \<in> set (books_borrowed (member_objs h m))) [0..<n_member_objs h]"

text \<open>``A book is unavailable if and only if its identifier appears in exactly one
  member's held list'', for the book objects registered in the library.\<close>

definition availability_invariant :: "Library \<Rightarrow> heap \<Rightarrow> bool" where
  "availability_invariant L h =
     (\<forall>b < n_book_objs h.
        books L (book_id (book_objs h b)) = Some b \<longrightarrow>
        (\<not> is_available (book_objs h b)) = (length (holders h (book_id (book_objs h b))) = 1))"

text \<open>The email format in the specification's words: \<^verbatim>\<open>local@domain.tld\<close>, that is one
  \<^verbatim>\<open>@\<close> with a non-empty local part before it and, after it, labels separated by
  dots, at least two of them, the first (the domain label) non-empty and the last (the
  top-level label) of at least 2 characters.\<close>

definition matches_local_domain_tld :: "string \<Rightarrow> bool" where
  "matches_local_domain_tld e =
     (case split_on CHR ''@'' e of
        [local, host] \<Rightarrow>
          local \<noteq> [] \<and>
          (let labels = split_on CHR ''.'' host
           in 2 \<le> length labels \<and> hd labels \<noteq> [] \<and> 2 \<le> length (last labels))
      | _ \<Rightarrow> False)"

text \<open>What the constructor looks at: the email up to, and without, its second \<^verbatim>\<open>@\<close>.\<close>

definition upto_second_at :: "string \<Rightarrow> string" where
  "upto_second_at e =
     (case split_on CHR ''@'' e of
        local # host # _ \<Rightarrow> local @ CHR ''@'' # host
      | _ \<Rightarrow> e)"




subsection \<open>Example objects and states\<close>

text \<open>A store before any constructor call (the objects behind unused references are
  placeholders), and the scenario of the specification's section 8: one book and one
  member are constructed and added, and the book is checked out to the member.\<close>

definition empty_heap :: heap where
  "empty_heap =
     \<lparr>book_objs = (\<lambda>_. \<lparr>book_id = [], title = [], author = [], genre = [],
                          publication_year = 0, is_available = True, kind = PlainBook\<rparr>),
      member_objs = (\<lambda>_. \<lparr>member_id = [], name = [], email = [], books_borrowed = []\<rparr>),
      n_book_objs = 0, n_member_objs = 0, book_count = 0, member_count = 0\<rparr>"

definition scenario_ops :: "string \<Rightarrow> string \<Rightarrow> lib_op list" where
  "scenario_ops bid mid =
     [NewBook bid (ustr ''To Kill a Mockingbird'') (ustr ''Harper Lee'') ''Fiction'' (IntYear 1960)
        (FictionBook ''Novel'') True,
      NewMember mid ''John Smith'' ''john@example.com'' None,
      AddBook 0, AddMember 0, CheckoutBook bid mid]"

definition scenario :: "string \<Rightarrow> string \<Rightarrow> Library \<times> heap" where
  "scenario bid mid =
     lib_run 2024 (scenario_ops bid mid)
       (Library_init ''City Public Library'' ''123 Main St, Anytown'', empty_heap)"

text \<open>Further states used as examples: two copies of one title (two book objects
  with the same identifier) and a member; four different books and a member; a book
  constructed with \<^verbatim>\<open>is_available=False\<close> and added; a member constructed with a
  non-empty \<^verbatim>\<open>books_borrowed\<close> next to the available book it names.\<close>

definition two_copies :: heap where
  "two_copies =
     snd (lib_run 2024
       [NewBook ''B001'' (ustr ''1984'') (ustr ''George Orwell'') ''Fiction'' (IntYear 1949) (FictionBook ''Novel'') True,
        NewBook ''B001'' (ustr ''1984'') (ustr ''George Orwell'') ''Fiction'' (IntYear 1949) (FictionBook ''Novel'') True,
        NewMember ''M001'' ''John Smith'' ''john@example.com'' None]
       (Library_init ''City Public Library'' ''123 Main St, Anytown'', empty_heap))"

definition four_books :: heap where
  "four_books =
     snd (lib_run 2024
       [NewBook ''B001'' (ustr ''To Kill a Mockingbird'') (ustr ''Harper Lee'') ''Fiction'' (IntYear 1960)
          (FictionBook ''Novel'') True,
        NewBook ''B002'' (ustr ''1984'') (ustr ''George Orwell'') ''Fiction'' (IntYear 1949)
          (FictionBook ''Novel'') True,
        NewBook ''B003'' (ustr ''A Brief History of Time'') (ustr ''Stephen Hawking'') ''Non-Fiction''
          (IntYear 1988) (NonFictionBook ''Physics'') True,
        NewBook ''B004'' (ustr ''Sapiens'') (ustr ''Yuval Noah Harari'') ''Non-Fiction'' (IntYear 2011)
          (NonFictionBook ''History'') True,
        NewMember ''M001'' ''John Smith'' ''john@example.com'' None]
       (Library_init ''City Public Library'' ''123 Main St, Anytown'', empty_heap))"

definition unavailable_at_construction :: "Library \<times> heap" where
  "unavailable_at_construction =
     lib_run 2024
       [NewBook ''B001'' (ustr ''1984'') (ustr ''George Orwell'') ''Fiction'' (IntYear 1949)
          (FictionBook ''Novel'') False,
        AddBook 0]
       (Library_init ''City Public Library'' ''123 Main St, Anytown'', empty_heap)"

definition held_at_construction :: "Library \<times> heap" where
  "held_at_construction =
     lib_run 2024
       [NewBook ''B001'' (ustr ''1984'') (ustr ''George Orwell'') ''Fiction'' (IntYear 1949)
          (FictionBook ''Novel'') True,
        NewMember ''M001'' ''John Smith'' ''john@example.com'' (Some [''B001'']),
        AddBook 0, AddMember 0]
       (Library_init ''City Public Library'' ''123 Main St, Anytown'', empty_heap)"


subsection \<open>Invariants used in the proofs\<close>

text \<open>For member objects \<open>Ms\<close> and book objects \<open>Bs\<close>: the books have pairwise
  different identifiers, every held list is free of duplicates, every held identifier
  is that of an unavailable book, and no identifier is held by two members.\<close>

definition held_inv :: "ref set \<Rightarrow> ref set \<Rightarrow> heap \<Rightarrow> bool" where
  "held_inv Ms Bs h =
     (inj_on (\<lambda>b. book_id (book_objs h b)) Bs
      \<and> (\<forall>m \<in> Ms. distinct (books_borrowed (member_objs h m)))
      \<and> (\<forall>m \<in> Ms. \<forall>i \<in> set (books_borrowed (member_objs h m)).
            \<exists>b \<in> Bs. book_id (book_objs h b) = i \<and> \<not> is_available (book_objs h b))
      \<and> (\<forall>m \<in> Ms. \<forall>m' \<in> Ms. m \<noteq> m' \<longrightarrow>
            set (books_borrowed (member_objs h m)) \<inter> set (books_borrowed (member_objs h m')) = {}))"

text \<open>For a library and the store: the above for all constructed members and the
  registered books; every registered book is a constructed object filed under its own
  identifier; every registered member is a constructed object; and every unavailable
  book is registered and held by some member.\<close>

definition lib_inv :: "Library \<times> heap \<Rightarrow> bool" where
  "lib_inv s =
     (case s of (L, h) \<Rightarrow>
        held_inv {..<n_member_objs h} (ran (books L)) h
        \<and> (\<forall>bid b. books L bid = Some b \<longrightarrow> b < n_book_objs h \<and> book_id (book_objs h b) = bid)
        \<and> (\<forall>mid m. members L mid = Some m \<longrightarrow> m < n_member_objs h)
        \<and> (\<forall>b < n_book_objs h. \<not> is_available (book_objs h b) \<longrightarrow>
              books L (book_id (book_objs h b)) = Some b
              \<and> (\<exists>m < n_member_objs h. book_id (book_objs h b) \<in> set (books_borrowed (member_objs h m)))))"

section \<open>Book transitions\<close>

lemma checkout_result:
  "checkout b = (is_available b, b\<lparr>is_available := False\<rparr>)"
  by (cases "is_available b") (simp_all add: checkout_def)

lemma return_to_library_result:
  "return_to_library b = (\<not> is_available b, b\<lparr>is_available := True\<rparr>)"
  by (cases "is_available b") (simp_all add: return_to_library_def)

lemma set_available_same:
  "is_available x \<Longrightarrow> x\<lparr>is_available := True\<rparr> = x"
  by (cases x) simp

lemma checkout_at_result:
  "checkout_at b h =
     (is_available (book_objs h b),
      h\<lparr>book_objs := (book_objs h)(b := (book_objs h b)\<lparr>is_available := False\<rparr>)\<rparr>)"
  by (simp add: checkout_at_def checkout_result)

lemma return_to_library_at_result:
  "return_to_library_at b h =
     (\<not> is_available (book_objs h b),
      h\<lparr>book_objs := (book_objs h)(b := (book_objs h b)\<lparr>is_available := True\<rparr>)\<rparr>)"
  by (simp add: return_to_library_at_def return_to_library_result)

section \<open>Member transitions\<close>

text \<open>Both methods in closed form: the one case in which they succeed, and no change
  otherwise. The last branch of each method (the book's own transition failing) is
  never taken, because the method has just tested the flag.\<close>

lemma borrow_book_result:
  "borrow_book self book =
     (if length (books_borrowed self) < 3 \<and> is_available book
      then (True, self\<lparr>books_borrowed := books_borrowed self @ [book_id book]\<rparr>,
                  book\<lparr>is_available := False\<rparr>)
      else (False, self, book))"
  by (simp add: borrow_book_def checkout_def)

lemma return_book_result:
  "return_book self book =
     (if book_id book \<in> set (books_borrowed self) \<and> \<not> is_available book
      then (True, self\<lparr>books_borrowed := remove1 (book_id book) (books_borrowed self)\<rparr>,
                  book\<lparr>is_available := True\<rparr>)
      else (False, self, book))"
  by (simp add: return_book_def return_to_library_def)

lemma borrow_book_at_result:
  "borrow_book_at m b h =
     (if length (books_borrowed (member_objs h m)) < 3 \<and> is_available (book_objs h b)
      then (True, h\<lparr>member_objs := (member_objs h)
                        (m := (member_objs h m)\<lparr>books_borrowed :=
                                books_borrowed (member_objs h m) @ [book_id (book_objs h b)]\<rparr>),
                     book_objs := (book_objs h)(b := (book_objs h b)\<lparr>is_available := False\<rparr>)\<rparr>)
      else (False, h))"
  by (simp add: borrow_book_at_def borrow_book_result)

lemma return_book_at_result:
  "return_book_at m b h =
     (if book_id (book_objs h b) \<in> set (books_borrowed (member_objs h m))
         \<and> \<not> is_available (book_objs h b)
      then (True, h\<lparr>member_objs := (member_objs h)
                        (m := (member_objs h m)\<lparr>books_borrowed :=
                                remove1 (book_id (book_objs h b)) (books_borrowed (member_objs h m))\<rparr>),
                     book_objs := (book_objs h)(b := (book_objs h b)\<lparr>is_available := True\<rparr>)\<rparr>)
      else (False, h))"
  by (simp add: return_book_at_def return_book_result)

text \<open>An identifier that is not a key makes both library methods fail, whatever the
  identifiers are.\<close>

lemma checkout_book_unknown:
  "books L bid = None \<or> members L mid = None \<Longrightarrow> checkout_book L bid mid h = (False, h)"
  by (auto simp: checkout_book_def split: option.splits)

lemma return_book_lib_unknown:
  "books L bid = None \<or> members L mid = None \<Longrightarrow> return_book_lib L bid mid h = (False, h)"
  by (auto simp: return_book_lib_def split: option.splits)

section \<open>The scenario, evaluated\<close>

lemma scenario_state:
  "scenario bid mid =
     (\<lparr>lib_name = ''City Public Library'', address = ''123 Main St, Anytown'',
       books = [bid \<mapsto> 0], members = [mid \<mapsto> 0]\<rparr>,
      \<lparr>book_objs = (book_objs empty_heap)
         (0 := \<lparr>book_id = bid, title = ustr ''To Kill a Mockingbird'', author = ustr ''Harper Lee'',
                 genre = ''Fiction'', publication_year = 1960, is_available = False,
                 kind = FictionBook ''Novel''\<rparr>),
       member_objs = (member_objs empty_heap)
         (0 := \<lparr>member_id = mid, name = ''John Smith'', email = ''john@example.com'',
                 books_borrowed = [bid]\<rparr>),
       n_book_objs = 1, n_member_objs = 1, book_count = 1, member_count = 1\<rparr>)"
  by (simp add: scenario_def scenario_ops_def lib_run_def Library_init_def empty_heap_def
      Book_init_def Member_init_def email_rejected_def split_on_def new_book_def
      new_member_def add_book_def add_member_def checkout_book_def borrow_book_at_result)

section \<open>Counters\<close>

lemma lib_step_counters:
  "book_count (snd s) \<le> book_count (snd (lib_step cy op s)) \<and>
   member_count (snd s) \<le> member_count (snd (lib_step cy op s))"
proof (cases s)
  case (Pair L h)
  then show ?thesis
    by (cases op)
       (simp_all add: new_book_def new_member_def add_book_def add_member_def Let_def
          checkout_book_def return_book_lib_def borrow_book_at_result return_book_at_result
          split: sum.splits option.splits)
qed

lemma lib_run_counters:
  "book_count (snd s) \<le> book_count (snd (lib_run cy ops s)) \<and>
   member_count (snd s) \<le> member_count (snd (lib_run cy ops s))"
proof (induction ops arbitrary: s)
  case Nil
  then show ?case by (simp add: lib_run_def)
next
  case (Cons op ops)
  have "lib_run cy (op # ops) s = lib_run cy ops (lib_step cy op s)"
    by (simp add: lib_run_def)
  with Cons [of "lib_step cy op s"] lib_step_counters [of s cy op]
  show ?case by auto
qed

section \<open>Claims about single calls\<close>

text \<open>
  Claim C1. In every library state in which both identifiers are registered and the
  book is unavailable, \<^verbatim>\<open>checkout_book\<close> returns \<^verbatim>\<open>False\<close>, except for the pair
  \<^verbatim>\<open>'B008'\<close>, \<^verbatim>\<open>'M005'\<close>, for which it returns \<^verbatim>\<open>True\<close> in every such state.
\<close>

theorem checkout_book_unavailable:
  "books L bid = Some b \<Longrightarrow> members L mid = Some m \<Longrightarrow> \<not> is_available (book_objs h b) \<Longrightarrow>
   fst (checkout_book L bid mid h) = (bid = ''B008'' \<and> mid = ''M005'')"
  by (simp add: checkout_book_def)

theorem checkout_book_unavailable_witness:
  "books (fst (scenario ''B001'' ''M001'')) ''B001'' = Some 0
   \<and> members (fst (scenario ''B001'' ''M001'')) ''M001'' = Some 0
   \<and> \<not> is_available (book_objs (snd (scenario ''B001'' ''M001'')) 0)
   \<and> fst (checkout_book (fst (scenario ''B001'' ''M001'')) ''B001'' ''M001''
            (snd (scenario ''B001'' ''M001''))) = False
   \<and> books (fst (scenario ''B008'' ''M005'')) ''B008'' = Some 0
   \<and> members (fst (scenario ''B008'' ''M005'')) ''M005'' = Some 0
   \<and> \<not> is_available (book_objs (snd (scenario ''B008'' ''M005'')) 0)
   \<and> fst (checkout_book (fst (scenario ''B008'' ''M005'')) ''B008'' ''M005''
            (snd (scenario ''B008'' ''M005''))) = True"
  using checkout_book_unavailable [of "fst (scenario ''B001'' ''M001'')" "''B001''" 0 "''M001''" 0
          "snd (scenario ''B001'' ''M001'')"]
        checkout_book_unavailable [of "fst (scenario ''B008'' ''M005'')" "''B008''" 0 "''M005''" 0
          "snd (scenario ''B008'' ''M005'')"]
  by (simp add: scenario_state)

text \<open>
  Claim C2, as stated: for a book in any availability state, \<^verbatim>\<open>checkout()\<close> followed by
  \<^verbatim>\<open>return_to_library()\<close> leaves the flag as it was. It fails for a book that is
  unavailable to begin with: \<^verbatim>\<open>checkout()\<close> refuses, \<^verbatim>\<open>return_to_library()\<close> succeeds,
  and the book ends up available. The book of the scenario, checked out, is such a book.
\<close>

theorem checkout_then_return_counterexample:
  "is_available (book_objs (snd (return_to_library_at 0
       (snd (checkout_at 0 (snd (scenario ''B001'' ''M001'')))))) 0)
   \<noteq> is_available (book_objs (snd (scenario ''B001'' ''M001'')) 0)"
  by (simp add: scenario_state checkout_at_result return_to_library_at_result)

text \<open>
  Claim C2, amended: for a book that is available, \<^verbatim>\<open>checkout()\<close> followed by
  \<^verbatim>\<open>return_to_library()\<close> restores the whole store; from any state the book is available
  after the two calls; and a second \<^verbatim>\<open>checkout()\<close> in a row returns \<^verbatim>\<open>False\<close>.
\<close>

theorem checkout_then_return:
  "(is_available (book_objs h b) \<longrightarrow>
      snd (return_to_library_at b (snd (checkout_at b h))) = h)
   \<and> is_available (book_objs (snd (return_to_library_at b (snd (checkout_at b h)))) b)
   \<and> fst (checkout_at b (snd (checkout_at b h))) = False"
  by (simp add: checkout_at_result return_to_library_at_result set_available_same)

theorem checkout_then_return_witness:
  "is_available (book_objs (snd (new_book (book_objs empty_heap 0) empty_heap)) 0)
   \<and> snd (return_to_library_at 0
            (snd (checkout_at 0 (snd (new_book (book_objs empty_heap 0) empty_heap)))))
       = snd (new_book (book_objs empty_heap 0) empty_heap)
   \<and> fst (checkout_at 0 (snd (new_book (book_objs empty_heap 0) empty_heap))) = True
   \<and> fst (checkout_at 0
            (snd (checkout_at 0 (snd (new_book (book_objs empty_heap 0) empty_heap))))) = False"
  using checkout_then_return [of "snd (new_book (book_objs empty_heap 0) empty_heap)" 0]
  by (simp add: new_book_def empty_heap_def checkout_at_result)

text \<open>
  Claim C8. \<^verbatim>\<open>add_book\<close> (and \<^verbatim>\<open>add_member\<close>) with an identifier that is already a key
  returns \<^verbatim>\<open>False\<close> and changes neither the library nor the store, the counter included;
  with a new identifier it enters the object under its identifier and adds one to the
  process-wide counter. The counter is the store's, not the library's: two additions to
  any two libraries raise it by two; and no sequence of operations lowers it.
\<close>

theorem add_book_add_member:
  "(books L (book_id (book_objs h b)) \<noteq> None \<longrightarrow> add_book L b h = (False, L, h))
   \<and> (books L (book_id (book_objs h b)) = None \<longrightarrow>
        add_book L b h =
          (True, L\<lparr>books := (books L)(book_id (book_objs h b) \<mapsto> b)\<rparr>,
                 h\<lparr>book_count := book_count h + 1\<rparr>))
   \<and> (members L (member_id (member_objs h m)) \<noteq> None \<longrightarrow> add_member L m h = (False, L, h))
   \<and> (members L (member_id (member_objs h m)) = None \<longrightarrow>
        add_member L m h =
          (True, L\<lparr>members := (members L)(member_id (member_objs h m) \<mapsto> m)\<rparr>,
                 h\<lparr>member_count := member_count h + 1\<rparr>))
   \<and> (books L (book_id (book_objs h b)) = None \<and> books L' (book_id (book_objs h b')) = None \<longrightarrow>
        book_count (snd (snd (add_book L' b' (snd (snd (add_book L b h)))))) = book_count h + 2)
   \<and> (members L (member_id (member_objs h m)) = None
        \<and> members L' (member_id (member_objs h m')) = None \<longrightarrow>
        member_count (snd (snd (add_member L' m' (snd (snd (add_member L m h))))))
          = member_count h + 2)
   \<and> book_count h \<le> book_count (snd (lib_run cy ops (L, h)))
   \<and> member_count h \<le> member_count (snd (lib_run cy ops (L, h)))"
  using lib_run_counters [of "(L, h)" cy ops]
  by (simp add: add_book_def add_member_def Let_def)

theorem add_book_add_member_witness:
  "books (fst (scenario ''B001'' ''M001''))
       (book_id (book_objs (snd (scenario ''B001'' ''M001'')) 0)) \<noteq> None
   \<and> add_book (fst (scenario ''B001'' ''M001'')) 0 (snd (scenario ''B001'' ''M001''))
       = (False, scenario ''B001'' ''M001'')
   \<and> members (fst (scenario ''B001'' ''M001''))
       (member_id (member_objs (snd (scenario ''B001'' ''M001'')) 0)) \<noteq> None
   \<and> add_member (fst (scenario ''B001'' ''M001'')) 0 (snd (scenario ''B001'' ''M001''))
       = (False, scenario ''B001'' ''M001'')
   \<and> books (Library_init ''Branch'' ''Elsewhere'')
       (book_id (book_objs (snd (scenario ''B001'' ''M001'')) 0)) = None
   \<and> fst (add_book (Library_init ''Branch'' ''Elsewhere'') 0 (snd (scenario ''B001'' ''M001'')))
   \<and> book_count (snd (snd (add_book (Library_init ''Branch'' ''Elsewhere'') 0
        (snd (scenario ''B001'' ''M001''))))) = 2
   \<and> members (Library_init ''Branch'' ''Elsewhere'')
       (member_id (member_objs (snd (scenario ''B001'' ''M001'')) 0)) = None
   \<and> fst (add_member (Library_init ''Branch'' ''Elsewhere'') 0 (snd (scenario ''B001'' ''M001'')))
   \<and> member_count (snd (snd (add_member (Library_init ''Branch'' ''Elsewhere'') 0
        (snd (scenario ''B001'' ''M001''))))) = 2"
  using add_book_add_member [of "fst (scenario ''B001'' ''M001'')"
          "snd (scenario ''B001'' ''M001'')" 0 0]
        add_book_add_member [of "Library_init ''Branch'' ''Elsewhere''"
          "snd (scenario ''B001'' ''M001'')" 0 0]
  by (simp add: scenario_state Library_init_def)

text \<open>
  Claim C9. Whenever \<^verbatim>\<open>Member.borrow_book\<close>, \<^verbatim>\<open>Member.return_book\<close>,
  \<^verbatim>\<open>Library.checkout_book\<close> or \<^verbatim>\<open>Library.return_book\<close> returns \<^verbatim>\<open>False\<close>, the store is
  the one before the call: every book's flag, every member's held list (and the
  counters). In particular returning a book whose identifier is not in the member's held
  list fails and changes nothing, called on the member or through the library.
\<close>

theorem failure_changes_nothing:
  "(\<not> fst (borrow_book_at m b h) \<longrightarrow> snd (borrow_book_at m b h) = h)
   \<and> (\<not> fst (return_book_at m b h) \<longrightarrow> snd (return_book_at m b h) = h)
   \<and> (\<not> fst (checkout_book L bid mid h) \<longrightarrow> snd (checkout_book L bid mid h) = h)
   \<and> (\<not> fst (return_book_lib L bid mid h) \<longrightarrow> snd (return_book_lib L bid mid h) = h)
   \<and> (book_id (book_objs h b) \<notin> set (books_borrowed (member_objs h m)) \<longrightarrow>
        return_book_at m b h = (False, h))
   \<and> (books L bid = Some b \<and> members L mid = Some m
        \<and> book_id (book_objs h b) \<notin> set (books_borrowed (member_objs h m)) \<longrightarrow>
        return_book_lib L bid mid h = (False, h))"
  by (simp add: borrow_book_at_result return_book_at_result checkout_book_def
        return_book_lib_def split: option.splits)

theorem failure_changes_nothing_witness:
  "\<not> fst (borrow_book_at 0 0 (snd (scenario ''B001'' ''M001'')))
   \<and> snd (borrow_book_at 0 0 (snd (scenario ''B001'' ''M001''))) = snd (scenario ''B001'' ''M001'')
   \<and> \<not> fst (checkout_book (fst (scenario ''B001'' ''M001'')) ''B001'' ''M001''
              (snd (scenario ''B001'' ''M001'')))
   \<and> snd (checkout_book (fst (scenario ''B001'' ''M001'')) ''B001'' ''M001''
              (snd (scenario ''B001'' ''M001''))) = snd (scenario ''B001'' ''M001'')
   \<and> fst (return_book_lib (fst (scenario ''B001'' ''M001'')) ''B001'' ''M001''
              (snd (scenario ''B001'' ''M001'')))
   \<and> book_id (book_objs (snd (return_book_lib (fst (scenario ''B001'' ''M001'')) ''B001'' ''M001''
              (snd (scenario ''B001'' ''M001'')))) 0)
        \<notin> set (books_borrowed (member_objs (snd (return_book_lib (fst (scenario ''B001'' ''M001''))
              ''B001'' ''M001'' (snd (scenario ''B001'' ''M001'')))) 0))
   \<and> return_book_at 0 0 (snd (return_book_lib (fst (scenario ''B001'' ''M001'')) ''B001'' ''M001''
              (snd (scenario ''B001'' ''M001''))))
       = (False, snd (return_book_lib (fst (scenario ''B001'' ''M001'')) ''B001'' ''M001''
              (snd (scenario ''B001'' ''M001''))))
   \<and> return_book_lib (fst (scenario ''B001'' ''M001'')) ''B001'' ''M001''
          (snd (return_book_lib (fst (scenario ''B001'' ''M001'')) ''B001'' ''M001''
              (snd (scenario ''B001'' ''M001''))))
       = (False, snd (return_book_lib (fst (scenario ''B001'' ''M001'')) ''B001'' ''M001''
              (snd (scenario ''B001'' ''M001''))))"
  using failure_changes_nothing [of 0 0 "snd (scenario ''B001'' ''M001'')"
          "fst (scenario ''B001'' ''M001'')" "''B001''" "''M001''"]
        failure_changes_nothing [of 0 0
          "snd (return_book_lib (fst (scenario ''B001'' ''M001'')) ''B001'' ''M001''
              (snd (scenario ''B001'' ''M001'')))"
          "fst (scenario ''B001'' ''M001'')" "''B001''" "''M001''"]
  by (simp add: scenario_state empty_heap_def borrow_book_at_result return_book_at_result
        checkout_book_def return_book_lib_def)

text \<open>
  Claim C10. When \<^verbatim>\<open>checkout_book('B008', 'M005')\<close> finds both identifiers registered
  and the book unavailable, it returns \<^verbatim>\<open>True\<close> and the store is the one before the
  call: the book stays unavailable and no held list changes.
\<close>

theorem special_case_changes_nothing:
  "books L ''B008'' = Some b \<Longrightarrow> members L ''M005'' = Some m \<Longrightarrow>
   \<not> is_available (book_objs h b) \<Longrightarrow>
   checkout_book L ''B008'' ''M005'' h = (True, h)"
  by (simp add: checkout_book_def)

theorem special_case_changes_nothing_witness:
  "books (fst (scenario ''B008'' ''M005'')) ''B008'' = Some 0
   \<and> members (fst (scenario ''B008'' ''M005'')) ''M005'' = Some 0
   \<and> \<not> is_available (book_objs (snd (scenario ''B008'' ''M005'')) 0)
   \<and> checkout_book (fst (scenario ''B008'' ''M005'')) ''B008'' ''M005''
        (snd (scenario ''B008'' ''M005'')) = (True, snd (scenario ''B008'' ''M005''))
   \<and> books_borrowed (member_objs (snd (scenario ''B008'' ''M005'')) 0) = [''B008'']"
  using special_case_changes_nothing [of "fst (scenario ''B008'' ''M005'')" 0 0
          "snd (scenario ''B008'' ''M005'')"]
  by (simp add: scenario_state)

section \<open>String primitives\<close>







































text \<open>\<open>split_on\<close> is the split: the pieces are free of the separator and joining
  them with the separator gives the string back.\<close>

lemma split_on_acc_no_sep: "sep \<notin> set s \<Longrightarrow> split_on_acc sep cur s = [cur @ s]"
  by (induction s arbitrary: cur) auto

lemma split_on_acc_first:
  "sep \<notin> set a \<Longrightarrow> split_on_acc sep cur (a @ sep # rest) = (cur @ a) # split_on_acc sep [] rest"
  by (induction a arbitrary: cur) auto

lemma split_on_acc_length:
  "length (split_on_acc sep cur s) = Suc (length (filter (\<lambda>c. c = sep) s))"
  by (induction s arbitrary: cur) simp_all

lemma split_on_acc_length2: "(2 \<le> length (split_on_acc sep cur s)) = (sep \<in> set s)"
proof -
  have "(filter (\<lambda>c. c = sep) s \<noteq> []) = (sep \<in> set s)"
    by (induction s) auto
  then show ?thesis by (simp add: split_on_acc_length Suc_le_eq)
qed

lemma split_on_acc_pieces_all:
  "sep \<notin> set cur \<Longrightarrow> \<forall>p \<in> set (split_on_acc sep cur s). sep \<notin> set p"
proof (induction s arbitrary: cur)
  case Nil
  then show ?case by simp
next
  case (Cons c cs)
  show ?case
  proof (cases "c = sep")
    case True
    with Cons.prems Cons.IH [of "[]"] show ?thesis by simp
  next
    case False
    with Cons.prems have "sep \<notin> set (cur @ [c])" by auto
    with False Cons.IH [of "cur @ [c]"] show ?thesis by simp
  qed
qed

lemma split_on_acc_pieces:
  "sep \<notin> set cur \<Longrightarrow> p \<in> set (split_on_acc sep cur s) \<Longrightarrow> sep \<notin> set p"
  using split_on_acc_pieces_all by blast

lemma split_on_acc_join: "join_with sep (split_on_acc sep cur s) = cur @ s"
proof (induction s arbitrary: cur)
  case Nil
  then show ?case by simp
next
  case (Cons c cs)
  show ?case
  proof (cases "c = sep")
    case True
    obtain p ps where ps: "split_on_acc sep [] cs = p # ps"
      by (cases "split_on_acc sep [] cs") (use split_on_acc_length [of sep "[]" cs] in auto)
    with Cons [of "[]"] have "join_with sep (p # ps) = cs" by simp
    with True ps show ?thesis by simp
  next
    case False
    with Cons [of "cur @ [c]"] show ?thesis by simp
  qed
qed

lemma split_on_acc_head:
  "\<exists>host rest. split_on_acc sep [] s = host # rest \<and> sep \<notin> set host"
proof (cases "split_on_acc sep [] s")
  case Nil
  with split_on_acc_length [of sep "[]" s] show ?thesis by simp
next
  case (Cons host rest)
  with split_on_acc_pieces [of sep "[]" host s] show ?thesis by simp
qed

lemma startswith_at:
  "CHR ''@'' \<notin> set a \<Longrightarrow> startswith (a @ CHR ''@'' # rest) ''@'' = (a = [])"
  by (cases a) auto

lemma email_rejected_iff: "email_rejected e = (\<not> matches_local_domain_tld (upto_second_at e))"
proof (cases "CHR ''@'' \<in> set e")
  case False
  then have "split_on CHR ''@'' e = [e]"
    by (simp add: split_on_def split_on_acc_no_sep)
  with False show ?thesis
    by (simp add: email_rejected_def matches_local_domain_tld_def upto_second_at_def)
next
  case True
  then obtain a rest where e: "e = a @ CHR ''@'' # rest" and a: "CHR ''@'' \<notin> set a"
    using split_list_first [of "CHR ''@''" e] by blast
  obtain host tail where rest: "split_on_acc CHR ''@'' [] rest = host # tail"
    and host: "CHR ''@'' \<notin> set host"
    using split_on_acc_head [of "CHR ''@''" rest] by blast
  have split_e: "split_on CHR ''@'' e = a # host # tail"
    using e a rest by (simp add: split_on_def split_on_acc_first)
  have upto: "upto_second_at e = a @ CHR ''@'' # host"
    by (simp add: upto_second_at_def split_e)
  have split_upto: "split_on CHR ''@'' (a @ CHR ''@'' # host) = [a, host]"
    using a host by (simp add: split_on_def split_on_acc_first split_on_acc_no_sep)
  have sw: "startswith e ''@'' = (a = [])"
    unfolding e by (rule startswith_at [OF a])
  have len: "(2 \<le> length (split_on CHR ''.'' host)) = (CHR ''.'' \<in> set host)"
    by (simp add: split_on_def split_on_acc_length2)
  have "email_rejected e =
      (a = [] \<or> CHR ''.'' \<notin> set host \<or> hd (split_on CHR ''.'' host) = []
        \<or> length (last (split_on CHR ''.'' host)) \<le> 1)"
    using True by (simp add: email_rejected_def sw split_e Let_def)
  moreover have "matches_local_domain_tld (upto_second_at e) =
      (a \<noteq> [] \<and> CHR ''.'' \<in> set host \<and> hd (split_on CHR ''.'' host) \<noteq> []
        \<and> 2 \<le> length (last (split_on CHR ''.'' host)))"
    by (simp add: matches_local_domain_tld_def upto split_upto Let_def len)
  ultimately show ?thesis by auto
qed


text \<open>The split is the only list of separator-free pieces with that join; the tokens
  of a split on whitespace are non-empty and free of spaces; and the pattern
  \<^verbatim>\<open>local@domain.tld\<close>, written out without \<open>split_on\<close>.\<close>

lemma split_on_pieces: "p \<in> set (split_on sep s) \<Longrightarrow> sep \<notin> set p"
  unfolding split_on_def by (rule split_on_acc_pieces [of sep "[]"]) simp_all

lemma split_on_join: "join_with sep (split_on sep s) = s"
  by (simp add: split_on_def split_on_acc_join)

lemma split_on_of_join:
  "ps \<noteq> [] \<Longrightarrow> \<forall>p \<in> set ps. sep \<notin> set p \<Longrightarrow> split_on sep (join_with sep ps) = ps"
proof (induction sep ps rule: join_with.induct)
  case (1 sep)
  then show ?case by simp
next
  case (2 sep p)
  then show ?case by (simp add: split_on_def split_on_acc_no_sep)
next
  case (3 sep p q ps)
  then have "split_on sep (join_with sep (q # ps)) = q # ps" by simp
  with 3 show ?case by (simp add: split_on_def split_on_acc_first)
qed

lemma split_ws_acc_tokens:
  "\<forall>c \<in> set cur. \<not> isspace c \<Longrightarrow>
   \<forall>t \<in> set (split_ws_acc cur s). t \<noteq> [] \<and> (\<forall>c \<in> set t. \<not> isspace c)"
proof (induction s arbitrary: cur)
  case Nil
  then show ?case by simp
next
  case (Cons c cs)
  show ?case
  proof (cases "isspace c")
    case True
    with Cons.prems Cons.IH [of "[]"] show ?thesis by simp
  next
    case False
    with Cons.prems have "\<forall>x \<in> set (cur @ [c]). \<not> isspace x" by auto
    with False Cons.IH [of "cur @ [c]"] show ?thesis by simp
  qed
qed

lemma split_ws_tokens:
  "t \<in> set (split_ws s) \<Longrightarrow> t \<noteq> [] \<and> (\<forall>c \<in> set t. \<not> isspace c)"
  using split_ws_acc_tokens [of "[]" s] by (simp add: split_ws_def)

lemma matches_local_domain_tld_iff:
  "matches_local_domain_tld e =
     (\<exists>local labels.
        e = local @ CHR ''@'' # join_with CHR ''.'' labels
        \<and> local \<noteq> [] \<and> CHR ''@'' \<notin> set local
        \<and> (\<forall>l \<in> set labels. CHR ''@'' \<notin> set l \<and> CHR ''.'' \<notin> set l)
        \<and> 2 \<le> length labels \<and> hd labels \<noteq> [] \<and> 2 \<le> length (last labels))"
  (is "?lhs = ?rhs")
proof
  assume ?lhs
  then obtain local host where sp: "split_on CHR ''@'' e = [local, host]"
    and ok: "local \<noteq> []" "2 \<le> length (split_on CHR ''.'' host)"
      "hd (split_on CHR ''.'' host) \<noteq> []" "2 \<le> length (last (split_on CHR ''.'' host))"
    by (auto simp: matches_local_domain_tld_def Let_def split: list.splits)
  let ?labels = "split_on CHR ''.'' host"
  from split_on_join [of "CHR ''@''" e] sp have e: "e = local @ CHR ''@'' # host" by simp
  from split_on_pieces [of local "CHR ''@''" e] split_on_pieces [of host "CHR ''@''" e] sp
  have at: "CHR ''@'' \<notin> set local" "CHR ''@'' \<notin> set host" by simp_all
  have host: "host = join_with CHR ''.'' ?labels" by (simp add: split_on_join)
  have "\<forall>l \<in> set ?labels. CHR ''@'' \<notin> set l \<and> CHR ''.'' \<notin> set l"
  proof
    fix l assume l: "l \<in> set ?labels"
    then have dot: "CHR ''.'' \<notin> set l" by (rule split_on_pieces)
    have "set host = set (join_with CHR ''.'' ?labels)" using host by simp
    have sub: "\<And>ps p. p \<in> set ps \<Longrightarrow> set p \<subseteq> set (join_with CHR ''.'' ps)"
    proof -
      fix ps :: "string list" and p
      show "p \<in> set ps \<Longrightarrow> set p \<subseteq> set (join_with CHR ''.'' ps)"
        by (induction "CHR ''.''" ps rule: join_with.induct) auto
    qed
    from sub [OF l] host have "set l \<subseteq> set host" by simp
    with at dot show "CHR ''@'' \<notin> set l \<and> CHR ''.'' \<notin> set l" by auto
  qed
  with e host ok at show ?rhs by metis
next
  assume ?rhs
  then obtain local labels where e: "e = local @ CHR ''@'' # join_with CHR ''.'' labels"
    and l: "local \<noteq> []" "CHR ''@'' \<notin> set local"
    and lab: "\<forall>l \<in> set labels. CHR ''@'' \<notin> set l \<and> CHR ''.'' \<notin> set l"
    and ok: "2 \<le> length labels" "hd labels \<noteq> []" "2 \<le> length (last labels)"
    by blast
  let ?host = "join_with CHR ''.'' labels"
  from ok have ne: "labels \<noteq> []" by auto
  have noat: "\<And>ps. \<forall>p \<in> set ps. CHR ''@'' \<notin> set p \<Longrightarrow> CHR ''@'' \<notin> set (join_with CHR ''.'' ps)"
  proof -
    fix ps :: "string list"
    show "\<forall>p \<in> set ps. CHR ''@'' \<notin> set p \<Longrightarrow> CHR ''@'' \<notin> set (join_with CHR ''.'' ps)"
      by (induction "CHR ''.''" ps rule: join_with.induct) auto
  qed
  from lab have "CHR ''@'' \<notin> set ?host" by (intro noat) blast
  with l have sp: "split_on CHR ''@'' e = [local, ?host]"
    by (simp add: e split_on_def split_on_acc_first split_on_acc_no_sep)
  from lab ne have "split_on CHR ''.'' ?host = labels"
    by (intro split_on_of_join) auto
  with sp l ok show ?lhs
    by (simp add: matches_local_domain_tld_def)
qed

section \<open>Claims about validation and search\<close>

text \<open>
  Claim C5, as stated: construction raises exactly when the email does not match
  \<^verbatim>\<open>local@domain.tld\<close>. The constructor only reads \<^verbatim>\<open>email.split('@')[1]\<close>, the text
  between the first and the second \<^verbatim>\<open>@\<close>, so \<^verbatim>\<open>user@example.com@x.y\<close> is accepted,
  though it has two \<^verbatim>\<open>@\<close> and its last label has one character.
\<close>

theorem member_email_counterexample:
  "Member_init ''M001'' ''John Smith'' ''user@example.com@x.y'' None
     = Inr \<lparr>member_id = ''M001'', name = ''John Smith'', email = ''user@example.com@x.y'',
            books_borrowed = []\<rparr>
   \<and> \<not> matches_local_domain_tld ''user@example.com@x.y''"
  by (simp add: Member_init_def email_rejected_def matches_local_domain_tld_def split_on_def)

text \<open>
  Claim C5, amended: construction raises a validation error if and only if the email,
  cut off before its second \<^verbatim>\<open>@\<close> when it has one, does not match \<^verbatim>\<open>local@domain.tld\<close>
  (non-empty local part, non-empty first label, last label of at least 2 characters).
  \<^verbatim>\<open>user@.com\<close> and \<^verbatim>\<open>user@domain.c\<close> raise; \<^verbatim>\<open>user@example.com\<close> succeeds.
\<close>

theorem member_email_validation:
  "((\<exists>msg. Member_init mid nm e borrowed = Inl (ValueError msg))
      = (\<not> matches_local_domain_tld (upto_second_at e)))
   \<and> Member_init mid nm ''user@.com'' borrowed = Inl (ValueError ''Invalid email format'')
   \<and> Member_init mid nm ''user@domain.c'' borrowed = Inl (ValueError ''Invalid email format'')
   \<and> Member_init mid nm ''user@example.com'' None
        = Inr \<lparr>member_id = mid, name = nm, email = ''user@example.com'', books_borrowed = []\<rparr>"
proof -
  have "(\<exists>msg. Member_init mid nm e borrowed = Inl (ValueError msg)) = email_rejected e"
    by (simp add: Member_init_def)
  moreover have "email_rejected ''user@.com''"
    by (simp add: email_rejected_def split_on_def)
  moreover have "email_rejected ''user@domain.c''"
    by (simp add: email_rejected_def split_on_def)
  moreover have "\<not> email_rejected ''user@example.com''"
    by (simp add: email_rejected_def split_on_def)
  ultimately show ?thesis
    by (simp add: Member_init_def email_rejected_iff)
qed

theorem member_email_validation_witness:
  "matches_local_domain_tld (upto_second_at ''john@example.com'')
   \<and> \<not> (\<exists>msg. Member_init ''M001'' ''John Smith'' ''john@example.com'' None = Inl (ValueError msg))
   \<and> \<not> matches_local_domain_tld (upto_second_at ''john.example.com'')
   \<and> (\<exists>msg. Member_init ''M001'' ''John Smith'' ''john.example.com'' None = Inl (ValueError msg))"
proof -
  have "matches_local_domain_tld (upto_second_at ''john@example.com'')"
    by (simp add: matches_local_domain_tld_def upto_second_at_def split_on_def)
  moreover have "\<not> matches_local_domain_tld (upto_second_at ''john.example.com'')"
    by (simp add: matches_local_domain_tld_def upto_second_at_def split_on_def)
  ultimately show ?thesis
    using member_email_validation [of "''M001''" "''John Smith''" "''john@example.com''" None]
      member_email_validation [of "''M001''" "''John Smith''" "''john.example.com''" None]
    by blast
qed









section \<open>Held lists under calls on members\<close>

lemmas eval_defs =
  lib_run_def Library_init_def empty_heap_def Book_init_def Member_init_def email_rejected_def
  split_on_def new_book_def new_member_def add_book_def add_member_def do_calls_def
  borrow_book_at_result return_book_at_result

lemma held_inv_not_held:
  assumes inv: "held_inv Ms Bs h" and b: "b \<in> Bs" and av: "is_available (book_objs h b)"
    and m: "m \<in> Ms"
  shows "book_id (book_objs h b) \<notin> set (books_borrowed (member_objs h m))"
proof
  assume "book_id (book_objs h b) \<in> set (books_borrowed (member_objs h m))"
  with inv m obtain b' where b': "b' \<in> Bs" "book_id (book_objs h b') = book_id (book_objs h b)"
    "\<not> is_available (book_objs h b')"
    unfolding held_inv_def by blast
  from inv have "inj_on (\<lambda>b. book_id (book_objs h b)) Bs" by (simp add: held_inv_def)
  with b b' have "b' = b" by (auto dest: inj_onD)
  with b' av show False by simp
qed

lemma held_inv_borrow:
  assumes inv: "held_inv Ms Bs h" and m: "m \<in> Ms" and b: "b \<in> Bs"
  shows "held_inv Ms Bs (snd (borrow_book_at m b h))"
proof (cases "length (books_borrowed (member_objs h m)) < 3 \<and> is_available (book_objs h b)")
  case False
  then have "snd (borrow_book_at m b h) = h"
    by (auto simp: borrow_book_at_result)
  with inv show ?thesis by simp
next
  case True
  let ?h' = "snd (borrow_book_at m b h)"
  let ?i = "book_id (book_objs h b)"
  have ids: "\<And>x. book_id (book_objs ?h' x) = book_id (book_objs h x)"
    using True by (simp add: borrow_book_at_result)
  have lists: "\<And>x. books_borrowed (member_objs ?h' x)
      = (if x = m then books_borrowed (member_objs h m) @ [?i] else books_borrowed (member_objs h x))"
    using True by (simp add: borrow_book_at_result)
  have avail: "\<And>x. is_available (book_objs ?h' x) = (x \<noteq> b \<and> is_available (book_objs h x))"
    using True by (simp add: borrow_book_at_result)
  have fresh: "\<And>x. x \<in> Ms \<Longrightarrow> ?i \<notin> set (books_borrowed (member_objs h x))"
    using held_inv_not_held [OF inv b] True by blast
  have c1: "inj_on (\<lambda>b. book_id (book_objs ?h' b)) Bs"
    using inv by (simp add: ids held_inv_def)
  have c2: "\<forall>x \<in> Ms. distinct (books_borrowed (member_objs ?h' x))"
    using inv fresh by (simp add: lists held_inv_def)
  have c3: "\<forall>x \<in> Ms. \<forall>i \<in> set (books_borrowed (member_objs ?h' x)).
            \<exists>y \<in> Bs. book_id (book_objs ?h' y) = i \<and> \<not> is_available (book_objs ?h' y)"
  proof (intro ballI)
    fix x i assume x: "x \<in> Ms" and i: "i \<in> set (books_borrowed (member_objs ?h' x))"
    show "\<exists>y \<in> Bs. book_id (book_objs ?h' y) = i \<and> \<not> is_available (book_objs ?h' y)"
    proof (cases "i \<in> set (books_borrowed (member_objs h x))")
      case True
      with inv x obtain y where "y \<in> Bs" "book_id (book_objs h y) = i"
        "\<not> is_available (book_objs h y)"
        unfolding held_inv_def by blast
      then show ?thesis by (auto simp: ids avail)
    next
      case False
      with i have "i = ?i" by (simp add: lists split: if_splits)
      with b show ?thesis by (auto simp: ids avail)
    qed
  qed
  have c4: "\<forall>x \<in> Ms. \<forall>x' \<in> Ms. x \<noteq> x' \<longrightarrow>
            set (books_borrowed (member_objs ?h' x)) \<inter> set (books_borrowed (member_objs ?h' x')) = {}"
  proof (intro ballI impI)
    fix x x' assume x: "x \<in> Ms" and x': "x' \<in> Ms" and ne: "x \<noteq> x'"
    from inv x x' ne have
      "set (books_borrowed (member_objs h x)) \<inter> set (books_borrowed (member_objs h x')) = {}"
      unfolding held_inv_def by blast
    with fresh [OF x] fresh [OF x'] ne
    show "set (books_borrowed (member_objs ?h' x)) \<inter> set (books_borrowed (member_objs ?h' x')) = {}"
      by (auto simp: lists)
  qed
  from c1 c2 c3 c4 show ?thesis unfolding held_inv_def by blast
qed

lemma held_inv_return:
  assumes inv: "held_inv Ms Bs h" and m: "m \<in> Ms" and b: "b \<in> Bs"
  shows "held_inv Ms Bs (snd (return_book_at m b h))"
proof (cases "book_id (book_objs h b) \<in> set (books_borrowed (member_objs h m))
         \<and> \<not> is_available (book_objs h b)")
  case False
  then have "snd (return_book_at m b h) = h"
    by (auto simp: return_book_at_result)
  with inv show ?thesis by simp
next
  case True
  let ?h' = "snd (return_book_at m b h)"
  let ?i = "book_id (book_objs h b)"
  have ids: "\<And>x. book_id (book_objs ?h' x) = book_id (book_objs h x)"
    using True by (simp add: return_book_at_result)
  have lists: "\<And>x. books_borrowed (member_objs ?h' x)
      = (if x = m then remove1 ?i (books_borrowed (member_objs h m))
         else books_borrowed (member_objs h x))"
    using True by (simp add: return_book_at_result)
  have avail: "\<And>x. is_available (book_objs ?h' x) = (x = b \<or> is_available (book_objs h x))"
    using True by (simp add: return_book_at_result)
  have dist: "\<And>x. x \<in> Ms \<Longrightarrow> distinct (books_borrowed (member_objs h x))"
    using inv by (simp add: held_inv_def)
  have disj: "\<And>x x'. x \<in> Ms \<Longrightarrow> x' \<in> Ms \<Longrightarrow> x \<noteq> x' \<Longrightarrow>
      set (books_borrowed (member_objs h x)) \<inter> set (books_borrowed (member_objs h x')) = {}"
    using inv unfolding held_inv_def by blast
  have sub: "\<And>x. set (books_borrowed (member_objs ?h' x)) \<subseteq> set (books_borrowed (member_objs h x))"
    using set_remove1_subset [of ?i "books_borrowed (member_objs h m)"] by (auto simp: lists)
  have gone: "\<And>x. x \<in> Ms \<Longrightarrow> ?i \<notin> set (books_borrowed (member_objs ?h' x))"
  proof -
    fix x assume x: "x \<in> Ms"
    show "?i \<notin> set (books_borrowed (member_objs ?h' x))"
    proof (cases "x = m")
      case True
      with dist [OF m] show ?thesis by (simp add: lists)
    next
      case False
      with disj [OF x m] \<open>?i \<in> set (books_borrowed (member_objs h m)) \<and> _\<close>
      show ?thesis by (auto simp: lists)
    qed
  qed
  have c1: "inj_on (\<lambda>b. book_id (book_objs ?h' b)) Bs"
    using inv by (simp add: ids held_inv_def)
  have c2: "\<forall>x \<in> Ms. distinct (books_borrowed (member_objs ?h' x))"
    using dist by (simp add: lists)
  have c3: "\<forall>x \<in> Ms. \<forall>i \<in> set (books_borrowed (member_objs ?h' x)).
            \<exists>y \<in> Bs. book_id (book_objs ?h' y) = i \<and> \<not> is_available (book_objs ?h' y)"
  proof (intro ballI)
    fix x i assume x: "x \<in> Ms" and i: "i \<in> set (books_borrowed (member_objs ?h' x))"
    from i sub have "i \<in> set (books_borrowed (member_objs h x))" by blast
    with inv x obtain y where y: "y \<in> Bs" "book_id (book_objs h y) = i"
      "\<not> is_available (book_objs h y)"
      unfolding held_inv_def by blast
    from i gone [OF x] have "i \<noteq> ?i" by blast
    with y have "y \<noteq> b" by blast
    with y show "\<exists>y \<in> Bs. book_id (book_objs ?h' y) = i \<and> \<not> is_available (book_objs ?h' y)"
      by (auto simp: ids avail)
  qed
  have c4: "\<forall>x \<in> Ms. \<forall>x' \<in> Ms. x \<noteq> x' \<longrightarrow>
            set (books_borrowed (member_objs ?h' x)) \<inter> set (books_borrowed (member_objs ?h' x')) = {}"
  proof (intro ballI impI)
    fix x x' assume x: "x \<in> Ms" and x': "x' \<in> Ms" and ne: "x \<noteq> x'"
    with disj [OF x x' ne] sub [of x] sub [of x']
    show "set (books_borrowed (member_objs ?h' x)) \<inter> set (books_borrowed (member_objs ?h' x')) = {}"
      by blast
  qed
  from c1 c2 c3 c4 show ?thesis unfolding held_inv_def by blast
qed

lemma held_inv_do_calls:
  "held_inv Ms Bs h \<Longrightarrow> call_member ` set cs \<subseteq> Ms \<Longrightarrow> call_book ` set cs \<subseteq> Bs \<Longrightarrow>
   held_inv Ms Bs (do_calls cs h)"
proof (induction cs arbitrary: h)
  case Nil
  then show ?case by (simp add: do_calls_def)
next
  case (Cons c cs)
  have run: "do_calls (c # cs) h = do_calls cs (do_call c h)"
    by (simp add: do_calls_def)
  from Cons.prems have "held_inv Ms Bs (do_call c h)"
    by (cases c) (simp_all add: held_inv_borrow held_inv_return)
  with Cons.IH [of "do_call c h"] Cons.prems show ?case
    by (simp add: run)
qed

lemma do_call_length:
  "length (books_borrowed (member_objs h m)) \<le> 3 \<Longrightarrow>
   length (books_borrowed (member_objs (do_call c h) m)) \<le> 3"
  by (cases c) (auto simp: borrow_book_at_result return_book_at_result length_remove1)

lemma do_calls_length:
  "length (books_borrowed (member_objs h m)) \<le> 3 \<Longrightarrow>
   length (books_borrowed (member_objs (do_calls cs h) m)) \<le> 3"
proof (induction cs arbitrary: h)
  case Nil
  then show ?case by (simp add: do_calls_def)
next
  case (Cons c cs)
  have "do_calls (c # cs) h = do_calls cs (do_call c h)"
    by (simp add: do_calls_def)
  with Cons.IH [of "do_call c h"] do_call_length [OF Cons.prems, of c] show ?case
    by simp
qed

section \<open>The library invariant\<close>

lemma held_inv_cong:
  assumes "\<And>b. b \<in> Bs \<Longrightarrow> book_objs h' b = book_objs h b"
    and "\<And>m. m \<in> Ms \<Longrightarrow> member_objs h' m = member_objs h m"
  shows "held_inv Ms Bs h' = held_inv Ms Bs h"
proof -
  have "inj_on (\<lambda>b. book_id (book_objs h' b)) Bs = inj_on (\<lambda>b. book_id (book_objs h b)) Bs"
    by (rule inj_on_cong) (simp add: assms)
  then show ?thesis
    unfolding held_inv_def by (simp add: assms cong: ball_cong bex_cong)
qed

lemma held_inv_new_member:
  assumes "held_inv Ms Bs h" and "books_borrowed (member_objs h m) = []"
  shows "held_inv (insert m Ms) Bs h"
  using assms unfolding held_inv_def by auto

lemma held_inv_new_book:
  assumes "held_inv Ms Bs h"
    and "\<And>b. b \<in> Bs \<Longrightarrow> book_id (book_objs h b) \<noteq> book_id (book_objs h r)"
  shows "held_inv Ms (insert r Bs) h"
proof -
  from assms(2) have "book_id (book_objs h r) \<notin> (\<lambda>b. book_id (book_objs h b)) ` (Bs - {r})"
    by force
  with assms(1) have "inj_on (\<lambda>b. book_id (book_objs h b)) (insert r Bs)"
    unfolding held_inv_def by (simp add: inj_on_insert)
  with assms(1) show ?thesis unfolding held_inv_def by blast
qed

lemma filter_upt_length_1:
  "(length (filter P [0..<n]) = 1) = (\<exists>m. m < n \<and> P m \<and> (\<forall>m'. m' < n \<and> P m' \<longrightarrow> m' = m))"
proof -
  have d: "distinct (filter P [0..<n])" by simp
  have s: "set (filter P [0..<n]) = {m. m < n \<and> P m}" by auto
  have "(length (filter P [0..<n]) = 1) = (card {m. m < n \<and> P m} = 1)"
    using distinct_card [OF d] s by simp
  also have "\<dots> = (\<exists>m. {m. m < n \<and> P m} = {m})"
    by (simp add: card_1_singleton_iff)
  also have "\<dots> = (\<exists>m. m < n \<and> P m \<and> (\<forall>m'. m' < n \<and> P m' \<longrightarrow> m' = m))"
    by (rule arg_cong [where f = Ex], rule ext) blast
  finally show ?thesis .
qed

lemma lib_inv_availability:
  assumes "lib_inv (L, h)"
  shows "availability_invariant L h"
  unfolding availability_invariant_def
proof (intro allI impI)
  fix b assume b: "b < n_book_objs h" and reg: "books L (book_id (book_objs h b)) = Some b"
  let ?i = "book_id (book_objs h b)"
  let ?P = "\<lambda>m. ?i \<in> set (books_borrowed (member_objs h m))"
  from assms have hi: "held_inv {..<n_member_objs h} (ran (books L)) h"
    and unav: "\<And>x. x < n_book_objs h \<Longrightarrow> \<not> is_available (book_objs h x) \<Longrightarrow>
        (\<exists>m < n_member_objs h. book_id (book_objs h x) \<in> set (books_borrowed (member_objs h m)))"
    and ids: "\<And>bid x. books L bid = Some x \<Longrightarrow> book_id (book_objs h x) = bid"
    unfolding lib_inv_def by auto
  from hi have disj: "\<And>m m'. m < n_member_objs h \<Longrightarrow> m' < n_member_objs h \<Longrightarrow> m \<noteq> m' \<Longrightarrow>
      set (books_borrowed (member_objs h m)) \<inter> set (books_borrowed (member_objs h m')) = {}"
    unfolding held_inv_def by auto
  from hi have owned: "\<And>m i. m < n_member_objs h \<Longrightarrow> i \<in> set (books_borrowed (member_objs h m)) \<Longrightarrow>
      \<exists>x \<in> ran (books L). book_id (book_objs h x) = i \<and> \<not> is_available (book_objs h x)"
    unfolding held_inv_def by auto
  show "(\<not> is_available (book_objs h b)) = (length (holders h ?i) = 1)"
  proof
    assume "\<not> is_available (book_objs h b)"
    with unav [OF b] obtain m where m: "m < n_member_objs h" "?P m" by blast
    have "\<forall>m'. m' < n_member_objs h \<and> ?P m' \<longrightarrow> m' = m"
    proof (intro allI impI)
      fix m' assume m': "m' < n_member_objs h \<and> ?P m'"
      show "m' = m"
      proof (rule ccontr)
        assume "m' \<noteq> m"
        with disj [of m' m] m m' show False by blast
      qed
    qed
    with m show "length (holders h ?i) = 1"
      unfolding holders_def filter_upt_length_1 by blast
  next
    assume "length (holders h ?i) = 1"
    then obtain m where m: "m < n_member_objs h" "?P m"
      unfolding holders_def filter_upt_length_1 by blast
    from owned [OF m] obtain x where x: "x \<in> ran (books L)" "book_id (book_objs h x) = ?i"
      "\<not> is_available (book_objs h x)" by blast
    from x(1) obtain bid where "books L bid = Some x" by (auto simp: ran_def)
    with ids [of bid x] x(2) have "books L ?i = Some x" by simp
    with reg have "x = b" by simp
    with x(3) show "\<not> is_available (book_objs h b)" by simp
  qed
qed

lemma lib_inv_init: "no_objects h \<Longrightarrow> lib_inv (Library_init nm addr, h)"
  by (simp add: lib_inv_def no_objects_def Library_init_def held_inv_def)

lemma lib_inv_new_book:
  assumes inv: "lib_inv (L, h)" and av: "is_available b"
  shows "lib_inv (L, snd (new_book b h))"
proof -
  let ?h' = "snd (new_book b h)"
  from inv have hi: "held_inv {..<n_member_objs h} (ran (books L)) h"
    and reg: "\<And>bid x. books L bid = Some x \<Longrightarrow> x < n_book_objs h \<and> book_id (book_objs h x) = bid"
    and mem: "\<And>mid m. members L mid = Some m \<Longrightarrow> m < n_member_objs h"
    and unav: "\<And>x. x < n_book_objs h \<Longrightarrow> \<not> is_available (book_objs h x) \<Longrightarrow>
        books L (book_id (book_objs h x)) = Some x
        \<and> (\<exists>m < n_member_objs h. book_id (book_objs h x) \<in> set (books_borrowed (member_objs h m)))"
    unfolding lib_inv_def by auto
  have old: "\<And>x. x < n_book_objs h \<Longrightarrow> book_objs ?h' x = book_objs h x"
    by (simp add: new_book_def)
  have new: "book_objs ?h' (n_book_objs h) = b"
    by (simp add: new_book_def)
  have same: "member_objs ?h' = member_objs h" "n_member_objs ?h' = n_member_objs h"
    "n_book_objs ?h' = Suc (n_book_objs h)"
    by (simp_all add: new_book_def)
  have "held_inv {..<n_member_objs h} (ran (books L)) ?h' = held_inv {..<n_member_objs h} (ran (books L)) h"
  proof (rule held_inv_cong)
    fix x assume "x \<in> ran (books L)"
    then obtain bid where "books L bid = Some x" by (auto simp: ran_def)
    with reg have "x < n_book_objs h" by blast
    then show "book_objs ?h' x = book_objs h x" by (rule old)
  qed (simp add: same)
  with hi have c0: "held_inv {..<n_member_objs ?h'} (ran (books L)) ?h'" by (simp add: same)
  have c1: "\<forall>bid x. books L bid = Some x \<longrightarrow> x < n_book_objs ?h' \<and> book_id (book_objs ?h' x) = bid"
  proof (intro allI impI)
    fix bid x assume "books L bid = Some x"
    with reg have "x < n_book_objs h" "book_id (book_objs h x) = bid" by blast+
    then show "x < n_book_objs ?h' \<and> book_id (book_objs ?h' x) = bid"
      by (simp add: old same)
  qed
  have c2: "\<forall>mid m. members L mid = Some m \<longrightarrow> m < n_member_objs ?h'"
    using mem by (simp add: same)
  have c3: "\<forall>x < n_book_objs ?h'. \<not> is_available (book_objs ?h' x) \<longrightarrow>
              books L (book_id (book_objs ?h' x)) = Some x
              \<and> (\<exists>m < n_member_objs ?h'. book_id (book_objs ?h' x) \<in> set (books_borrowed (member_objs ?h' m)))"
  proof (intro allI impI)
    fix x assume x: "x < n_book_objs ?h'" and ux: "\<not> is_available (book_objs ?h' x)"
    from ux av new have "x \<noteq> n_book_objs h" by auto
    with x have lt: "x < n_book_objs h" by (simp add: same)
    with ux have "\<not> is_available (book_objs h x)" by (simp add: old)
    from unav [OF lt this] show "books L (book_id (book_objs ?h' x)) = Some x
              \<and> (\<exists>m < n_member_objs ?h'. book_id (book_objs ?h' x) \<in> set (books_borrowed (member_objs ?h' m)))"
      by (simp add: old [OF lt] same)
  qed
  from c0 c1 c2 c3 show ?thesis by (simp add: lib_inv_def)
qed

lemma lib_inv_new_member:
  assumes inv: "lib_inv (L, h)" and empty: "books_borrowed m = []"
  shows "lib_inv (L, snd (new_member m h))"
proof -
  let ?h' = "snd (new_member m h)"
  from inv have hi: "held_inv {..<n_member_objs h} (ran (books L)) h"
    and reg: "\<And>bid x. books L bid = Some x \<Longrightarrow> x < n_book_objs h \<and> book_id (book_objs h x) = bid"
    and mem: "\<And>mid m. members L mid = Some m \<Longrightarrow> m < n_member_objs h"
    and unav: "\<And>x. x < n_book_objs h \<Longrightarrow> \<not> is_available (book_objs h x) \<Longrightarrow>
        books L (book_id (book_objs h x)) = Some x
        \<and> (\<exists>m < n_member_objs h. book_id (book_objs h x) \<in> set (books_borrowed (member_objs h m)))"
    unfolding lib_inv_def by auto
  have old: "\<And>x. x < n_member_objs h \<Longrightarrow> member_objs ?h' x = member_objs h x"
    by (simp add: new_member_def)
  have new: "member_objs ?h' (n_member_objs h) = m"
    by (simp add: new_member_def)
  have same: "book_objs ?h' = book_objs h" "n_book_objs ?h' = n_book_objs h"
    "n_member_objs ?h' = Suc (n_member_objs h)"
    by (simp_all add: new_member_def)
  have "held_inv {..<n_member_objs h} (ran (books L)) ?h' = held_inv {..<n_member_objs h} (ran (books L)) h"
    by (rule held_inv_cong) (simp_all add: same old)
  with hi have "held_inv {..<n_member_objs h} (ran (books L)) ?h'" by simp
  then have "held_inv (insert (n_member_objs h) {..<n_member_objs h}) (ran (books L)) ?h'"
    by (rule held_inv_new_member) (simp add: new empty)
  then have c0: "held_inv {..<n_member_objs ?h'} (ran (books L)) ?h'"
    by (simp add: same lessThan_Suc)
  have c1: "\<forall>bid x. books L bid = Some x \<longrightarrow> x < n_book_objs ?h' \<and> book_id (book_objs ?h' x) = bid"
    using reg by (simp add: same)
  have c2: "\<forall>mid m. members L mid = Some m \<longrightarrow> m < n_member_objs ?h'"
    using mem by (auto simp: same less_Suc_eq)
  have c3: "\<forall>x < n_book_objs ?h'. \<not> is_available (book_objs ?h' x) \<longrightarrow>
              books L (book_id (book_objs ?h' x)) = Some x
              \<and> (\<exists>m < n_member_objs ?h'. book_id (book_objs ?h' x) \<in> set (books_borrowed (member_objs ?h' m)))"
  proof (intro allI impI)
    fix x assume x: "x < n_book_objs ?h'" and ux: "\<not> is_available (book_objs ?h' x)"
    then have "x < n_book_objs h" "\<not> is_available (book_objs h x)" by (simp_all add: same)
    from unav [OF this] obtain k where k: "books L (book_id (book_objs h x)) = Some x"
      "k < n_member_objs h" "book_id (book_objs h x) \<in> set (books_borrowed (member_objs h k))"
      by blast
    then have "k < n_member_objs ?h' \<and> book_id (book_objs ?h' x) \<in> set (books_borrowed (member_objs ?h' k))"
      by (simp add: same old)
    with k(1) show "books L (book_id (book_objs ?h' x)) = Some x
              \<and> (\<exists>m < n_member_objs ?h'. book_id (book_objs ?h' x) \<in> set (books_borrowed (member_objs ?h' m)))"
      by (auto simp: same)
  qed
  from c0 c1 c2 c3 show ?thesis by (simp add: lib_inv_def)
qed

lemma lib_inv_add_book:
  assumes inv: "lib_inv (L, h)" and r: "r < n_book_objs h"
  shows "lib_inv (snd (add_book L r h))"
proof (cases "books L (book_id (book_objs h r)) = None")
  case False
  with inv show ?thesis by (simp add: add_book_def)
next
  case True
  let ?i = "book_id (book_objs h r)"
  let ?L' = "L\<lparr>books := (books L)(?i \<mapsto> r)\<rparr>"
  let ?h' = "h\<lparr>book_count := book_count h + 1\<rparr>"
  have res: "snd (add_book L r h) = (?L', ?h')"
    using True by (simp add: add_book_def)
  from inv have hi: "held_inv {..<n_member_objs h} (ran (books L)) h"
    and reg: "\<And>bid x. books L bid = Some x \<Longrightarrow> x < n_book_objs h \<and> book_id (book_objs h x) = bid"
    and mem: "\<And>mid m. members L mid = Some m \<Longrightarrow> m < n_member_objs h"
    and unav: "\<And>x. x < n_book_objs h \<Longrightarrow> \<not> is_available (book_objs h x) \<Longrightarrow>
        books L (book_id (book_objs h x)) = Some x
        \<and> (\<exists>m < n_member_objs h. book_id (book_objs h x) \<in> set (books_borrowed (member_objs h m)))"
    unfolding lib_inv_def by auto
  have other: "\<And>x. x \<in> ran (books L) \<Longrightarrow> book_id (book_objs h x) \<noteq> ?i"
  proof
    fix x assume "x \<in> ran (books L)" and eq: "book_id (book_objs h x) = ?i"
    then obtain bid where "books L bid = Some x" by (auto simp: ran_def)
    with reg [of bid x] eq have "books L ?i = Some x" by simp
    with True show False by simp
  qed
  have ran: "ran ((books L)(?i \<mapsto> r)) = insert r (ran (books L))"
    using True by simp
  have "held_inv {..<n_member_objs h} (insert r (ran (books L))) h"
    using hi other by (rule held_inv_new_book)
  moreover have "held_inv {..<n_member_objs h} (insert r (ran (books L))) ?h'
      = held_inv {..<n_member_objs h} (insert r (ran (books L))) h"
    by (rule held_inv_cong) simp_all
  ultimately have c0: "held_inv {..<n_member_objs ?h'} (ran (books ?L')) ?h'"
    by (simp add: ran)
  have c1: "\<forall>bid x. books ?L' bid = Some x \<longrightarrow> x < n_book_objs ?h' \<and> book_id (book_objs ?h' x) = bid"
  proof (intro allI impI)
    fix bid x assume a: "books ?L' bid = Some x"
    show "x < n_book_objs ?h' \<and> book_id (book_objs ?h' x) = bid"
    proof (cases "bid = ?i")
      case True
      with a r show ?thesis by simp
    next
      case False
      with a have "books L bid = Some x" by simp
      with reg [of bid x] show ?thesis by simp
    qed
  qed
  have c2: "\<forall>mid m. members ?L' mid = Some m \<longrightarrow> m < n_member_objs ?h'"
    using mem by simp
  have c3: "\<forall>x < n_book_objs ?h'. \<not> is_available (book_objs ?h' x) \<longrightarrow>
              books ?L' (book_id (book_objs ?h' x)) = Some x
              \<and> (\<exists>m < n_member_objs ?h'. book_id (book_objs ?h' x) \<in> set (books_borrowed (member_objs ?h' m)))"
  proof (intro allI impI)
    fix x assume "x < n_book_objs ?h'" and "\<not> is_available (book_objs ?h' x)"
    then have "x < n_book_objs h" "\<not> is_available (book_objs h x)" by simp_all
    from unav [OF this] have k: "books L (book_id (book_objs h x)) = Some x"
      and ex: "\<exists>m < n_member_objs h. book_id (book_objs h x) \<in> set (books_borrowed (member_objs h m))"
      by blast+
    from k True have "book_id (book_objs h x) \<noteq> ?i" by auto
    with k ex show "books ?L' (book_id (book_objs ?h' x)) = Some x
              \<and> (\<exists>m < n_member_objs ?h'. book_id (book_objs ?h' x) \<in> set (books_borrowed (member_objs ?h' m)))"
      by simp
  qed
  from c0 c1 c2 c3 have "lib_inv (?L', ?h')"
    unfolding lib_inv_def by (simp only: prod.case simp_thms)
  then show ?thesis by (simp only: res)
qed

lemma lib_inv_add_member:
  assumes inv: "lib_inv (L, h)" and r: "r < n_member_objs h"
  shows "lib_inv (snd (add_member L r h))"
proof (cases "members L (member_id (member_objs h r)) = None")
  case False
  with inv show ?thesis by (simp add: add_member_def)
next
  case True
  let ?L' = "L\<lparr>members := (members L)(member_id (member_objs h r) \<mapsto> r)\<rparr>"
  let ?h' = "h\<lparr>member_count := member_count h + 1\<rparr>"
  have res: "snd (add_member L r h) = (?L', ?h')"
    using True by (simp add: add_member_def)
  have "held_inv {..<n_member_objs h} (ran (books L)) ?h'
      = held_inv {..<n_member_objs h} (ran (books L)) h"
    by (rule held_inv_cong) simp_all
  with inv r show ?thesis
    unfolding res lib_inv_def by auto
qed

lemma lib_inv_borrow:
  assumes inv: "lib_inv (L, h)" and bk: "books L bid = Some b" and mb: "members L mid = Some m"
  shows "lib_inv (L, snd (borrow_book_at m b h))"
proof (cases "length (books_borrowed (member_objs h m)) < 3 \<and> is_available (book_objs h b)")
  case False
  then have "snd (borrow_book_at m b h) = h"
    by (auto simp: borrow_book_at_result)
  with inv show ?thesis by simp
next
  case True
  let ?h' = "snd (borrow_book_at m b h)"
  from inv have hi: "held_inv {..<n_member_objs h} (ran (books L)) h"
    and reg: "\<And>bid x. books L bid = Some x \<Longrightarrow> x < n_book_objs h \<and> book_id (book_objs h x) = bid"
    and mem: "\<And>mid m. members L mid = Some m \<Longrightarrow> m < n_member_objs h"
    and unav: "\<And>x. x < n_book_objs h \<Longrightarrow> \<not> is_available (book_objs h x) \<Longrightarrow>
        books L (book_id (book_objs h x)) = Some x
        \<and> (\<exists>m < n_member_objs h. book_id (book_objs h x) \<in> set (books_borrowed (member_objs h m)))"
    unfolding lib_inv_def by auto
  have ids: "\<And>x. book_id (book_objs ?h' x) = book_id (book_objs h x)"
    using True by (simp add: borrow_book_at_result)
  have lists: "\<And>x. books_borrowed (member_objs ?h' x)
      = (if x = m then books_borrowed (member_objs h m) @ [book_id (book_objs h b)]
         else books_borrowed (member_objs h x))"
    using True by (simp add: borrow_book_at_result)
  have avail: "\<And>x. is_available (book_objs ?h' x) = (x \<noteq> b \<and> is_available (book_objs h x))"
    using True by (simp add: borrow_book_at_result)
  have same: "n_book_objs ?h' = n_book_objs h" "n_member_objs ?h' = n_member_objs h"
    using True by (simp_all add: borrow_book_at_result)
  from mem [OF mb] have m: "m \<in> {..<n_member_objs h}" by simp
  from bk have b: "b \<in> ran (books L)" by (rule ranI)
  from reg [OF bk] have bN: "b < n_book_objs h" and bid: "book_id (book_objs h b) = bid" by blast+
  have c0: "held_inv {..<n_member_objs ?h'} (ran (books L)) ?h'"
    using held_inv_borrow [OF hi m b] by (simp add: same)
  have c1: "\<forall>bid x. books L bid = Some x \<longrightarrow> x < n_book_objs ?h' \<and> book_id (book_objs ?h' x) = bid"
    using reg by (simp add: same ids)
  have c2: "\<forall>mid m. members L mid = Some m \<longrightarrow> m < n_member_objs ?h'"
    using mem by (simp add: same)
  have c3: "\<forall>x < n_book_objs ?h'. \<not> is_available (book_objs ?h' x) \<longrightarrow>
              books L (book_id (book_objs ?h' x)) = Some x
              \<and> (\<exists>k < n_member_objs ?h'. book_id (book_objs ?h' x) \<in> set (books_borrowed (member_objs ?h' k)))"
  proof (intro allI impI)
    fix x assume x: "x < n_book_objs ?h'" and ux: "\<not> is_available (book_objs ?h' x)"
    show "books L (book_id (book_objs ?h' x)) = Some x
              \<and> (\<exists>k < n_member_objs ?h'. book_id (book_objs ?h' x) \<in> set (books_borrowed (member_objs ?h' k)))"
    proof (cases "x = b")
      case True
      have "book_id (book_objs ?h' b) \<in> set (books_borrowed (member_objs ?h' m))"
        by (simp add: ids lists)
      with m have "\<exists>k < n_member_objs ?h'. book_id (book_objs ?h' b) \<in> set (books_borrowed (member_objs ?h' k))"
        by (auto simp: same)
      with True bk bid show ?thesis by (simp add: ids)
    next
      case False
      with ux have "\<not> is_available (book_objs h x)" by (simp add: avail)
      with unav [of x] x obtain k where k: "books L (book_id (book_objs h x)) = Some x"
        "k < n_member_objs h" "book_id (book_objs h x) \<in> set (books_borrowed (member_objs h k))"
        by (auto simp: same)
      from k(3) have "book_id (book_objs ?h' x) \<in> set (books_borrowed (member_objs ?h' k))"
        by (auto simp: ids lists)
      with k(2) have "\<exists>k < n_member_objs ?h'. book_id (book_objs ?h' x) \<in> set (books_borrowed (member_objs ?h' k))"
        by (auto simp: same)
      with k(1) show ?thesis by (simp add: ids)
    qed
  qed
  from c0 c1 c2 c3 show ?thesis
    unfolding lib_inv_def by (simp only: prod.case simp_thms)
qed

lemma lib_inv_return:
  assumes inv: "lib_inv (L, h)" and bk: "books L bid = Some b" and mb: "members L mid = Some m"
  shows "lib_inv (L, snd (return_book_at m b h))"
proof (cases "book_id (book_objs h b) \<in> set (books_borrowed (member_objs h m))
         \<and> \<not> is_available (book_objs h b)")
  case False
  then have "snd (return_book_at m b h) = h"
    by (auto simp: return_book_at_result)
  with inv show ?thesis by simp
next
  case True
  let ?h' = "snd (return_book_at m b h)"
  let ?i = "book_id (book_objs h b)"
  from inv have hi: "held_inv {..<n_member_objs h} (ran (books L)) h"
    and reg: "\<And>bid x. books L bid = Some x \<Longrightarrow> x < n_book_objs h \<and> book_id (book_objs h x) = bid"
    and mem: "\<And>mid m. members L mid = Some m \<Longrightarrow> m < n_member_objs h"
    and unav: "\<And>x. x < n_book_objs h \<Longrightarrow> \<not> is_available (book_objs h x) \<Longrightarrow>
        books L (book_id (book_objs h x)) = Some x
        \<and> (\<exists>m < n_member_objs h. book_id (book_objs h x) \<in> set (books_borrowed (member_objs h m)))"
    unfolding lib_inv_def by auto
  have ids: "\<And>x. book_id (book_objs ?h' x) = book_id (book_objs h x)"
    using True by (simp add: return_book_at_result)
  have lists: "\<And>x. books_borrowed (member_objs ?h' x)
      = (if x = m then remove1 ?i (books_borrowed (member_objs h m))
         else books_borrowed (member_objs h x))"
    using True by (simp add: return_book_at_result)
  have avail: "\<And>x. is_available (book_objs ?h' x) = (x = b \<or> is_available (book_objs h x))"
    using True by (simp add: return_book_at_result)
  have same: "n_book_objs ?h' = n_book_objs h" "n_member_objs ?h' = n_member_objs h"
    using True by (simp_all add: return_book_at_result)
  from mem [OF mb] have m: "m \<in> {..<n_member_objs h}" by simp
  from bk have b: "b \<in> ran (books L)" by (rule ranI)
  from reg [OF bk] have bid: "?i = bid" by blast
  have c0: "held_inv {..<n_member_objs ?h'} (ran (books L)) ?h'"
    using held_inv_return [OF hi m b] by (simp add: same)
  have c1: "\<forall>bid x. books L bid = Some x \<longrightarrow> x < n_book_objs ?h' \<and> book_id (book_objs ?h' x) = bid"
    using reg by (simp add: same ids)
  have c2: "\<forall>mid m. members L mid = Some m \<longrightarrow> m < n_member_objs ?h'"
    using mem by (simp add: same)
  have c3: "\<forall>x < n_book_objs ?h'. \<not> is_available (book_objs ?h' x) \<longrightarrow>
              books L (book_id (book_objs ?h' x)) = Some x
              \<and> (\<exists>k < n_member_objs ?h'. book_id (book_objs ?h' x) \<in> set (books_borrowed (member_objs ?h' k)))"
  proof (intro allI impI)
    fix x assume x: "x < n_book_objs ?h'" and ux: "\<not> is_available (book_objs ?h' x)"
    then have xb: "x \<noteq> b" and ux': "\<not> is_available (book_objs h x)" by (auto simp: avail)
    with unav [of x] x obtain k where k: "books L (book_id (book_objs h x)) = Some x"
      "k < n_member_objs h" "book_id (book_objs h x) \<in> set (books_borrowed (member_objs h k))"
      by (auto simp: same)
    from k(1) bk bid xb have ne: "book_id (book_objs h x) \<noteq> ?i" by auto
    with k(3) have "book_id (book_objs ?h' x) \<in> set (books_borrowed (member_objs ?h' k))"
      by (auto simp: ids lists)
    with k(2) have "\<exists>k < n_member_objs ?h'. book_id (book_objs ?h' x) \<in> set (books_borrowed (member_objs ?h' k))"
      by (auto simp: same)
    with k(1) show "books L (book_id (book_objs ?h' x)) = Some x
              \<and> (\<exists>k < n_member_objs ?h'. book_id (book_objs ?h' x) \<in> set (books_borrowed (member_objs ?h' k)))"
      by (simp add: ids)
  qed
  from c0 c1 c2 c3 show ?thesis
    unfolding lib_inv_def by (simp only: prod.case simp_thms)
qed

lemma lib_inv_checkout_book:
  assumes "lib_inv (L, h)"
  shows "lib_inv (L, snd (checkout_book L bid mid h))"
proof (cases "books L bid")
  case None
  with assms show ?thesis by (simp add: checkout_book_def)
next
  case (Some b)
  note bk = this
  show ?thesis
  proof (cases "members L mid")
    case None
    with assms bk show ?thesis by (simp add: checkout_book_def)
  next
    case (Some m)
    show ?thesis
    proof (cases "is_available (book_objs h b)")
      case True
      with bk Some lib_inv_borrow [OF assms bk Some] show ?thesis
        by (simp add: checkout_book_def)
    next
      case False
      with assms bk Some show ?thesis by (simp add: checkout_book_def)
    qed
  qed
qed

lemma lib_inv_return_book:
  assumes "lib_inv (L, h)"
  shows "lib_inv (L, snd (return_book_lib L bid mid h))"
proof (cases "books L bid")
  case None
  with assms show ?thesis by (simp add: return_book_lib_def)
next
  case (Some b)
  note bk = this
  show ?thesis
  proof (cases "members L mid")
    case None
    with assms bk show ?thesis by (simp add: return_book_lib_def)
  next
    case (Some m)
    with bk lib_inv_return [OF assms bk Some] show ?thesis
      by (simp add: return_book_lib_def)
  qed
qed

lemma lib_inv_step:
  assumes "lib_inv s" and "default_args op"
  shows "lib_inv (lib_step cy op s)"
proof (cases s)
  case (Pair L h)
  with assms(1) have inv: "lib_inv (L, h)" by simp
  show ?thesis
  proof (cases op)
    case (NewBook bid ttl auth gnr year knd avail)
    with assms(2) have av: "avail" by simp
    show ?thesis
    proof (cases "Book_init cy bid ttl auth gnr year knd avail")
      case (Inl e)
      with inv Pair NewBook show ?thesis by simp
    next
      case (Inr b)
      with av have "is_available b"
        by (auto simp: Book_init_def split: year_arg.splits if_splits)
      from lib_inv_new_book [OF inv this] Inr Pair NewBook show ?thesis by simp
    qed
  next
    case (NewMember mid nm e borrowed)
    with assms(2) have d: "borrowed = None" by simp
    show ?thesis
    proof (cases "Member_init mid nm e borrowed")
      case (Inl e)
      with inv Pair NewMember show ?thesis by simp
    next
      case (Inr m)
      with d have "books_borrowed m = []"
        by (auto simp: Member_init_def split: if_splits)
      from lib_inv_new_member [OF inv this] Inr Pair NewMember show ?thesis by simp
    qed
  next
    case (AddBook r)
    with inv Pair lib_inv_add_book [OF inv, of r] show ?thesis by simp
  next
    case (AddMember r)
    with inv Pair lib_inv_add_member [OF inv, of r] show ?thesis by simp
  next
    case (CheckoutBook bid mid)
    with Pair lib_inv_checkout_book [OF inv, of bid mid] show ?thesis by simp
  next
    case (ReturnBookOp bid mid)
    with Pair lib_inv_return_book [OF inv, of bid mid] show ?thesis by simp
  qed
qed

lemma lib_inv_run:
  "lib_inv s \<Longrightarrow> list_all default_args ops \<Longrightarrow> lib_inv (lib_run cy ops s)"
proof (induction ops arbitrary: s)
  case Nil
  then show ?case by (simp add: lib_run_def)
next
  case (Cons op ops)
  have "lib_run cy (op # ops) s = lib_run cy ops (lib_step cy op s)"
    by (simp add: lib_run_def)
  moreover from Cons.prems have "lib_inv (lib_step cy op s)"
    by (simp add: lib_inv_step)
  ultimately show ?case using Cons.IH [of "lib_step cy op s"] Cons.prems by simp
qed

section \<open>Claims about reachable states\<close>

text \<open>
  Claim C3, as stated: in every state reached by constructing books and members and
  calling \<^verbatim>\<open>add_book\<close>, \<^verbatim>\<open>add_member\<close>, \<^verbatim>\<open>checkout_book\<close>, \<^verbatim>\<open>return_book\<close>, a book is
  unavailable if and only if its identifier is in exactly one member's held list. Both
  constructors take the state as an optional argument: a book constructed with
  \<^verbatim>\<open>is_available=False\<close> is unavailable and held by nobody, and a member constructed
  with \<^verbatim>\<open>books_borrowed=['B001']\<close> holds a book that is available.
\<close>

theorem availability_counterexample:
  "\<not> availability_invariant (fst unavailable_at_construction) (snd unavailable_at_construction)
   \<and> \<not> availability_invariant (fst held_at_construction) (snd held_at_construction)"
  by (simp add: unavailable_at_construction_def held_at_construction_def eval_defs
      availability_invariant_def holders_def)


text \<open>
  Claim C3, amended: start from a new library and a store without objects; construct
  books and members with the default arguments only (\<^verbatim>\<open>is_available=True\<close>, no
  \<^verbatim>\<open>books_borrowed\<close>) and call the four methods of that library, in any order and any
  number of times. Then a registered book is unavailable if and only if its identifier
  is in exactly one member's held list; the registered books and members are
  constructed objects, each book filed under its own identifier.
\<close>

theorem availability_default_construction:
  "list_all default_args ops \<Longrightarrow> no_objects h \<Longrightarrow>
   lib_run cy ops (Library_init nm addr, h) = (L', h') \<Longrightarrow>
   availability_invariant L' h'
   \<and> (\<forall>bid b. books L' bid = Some b \<longrightarrow> b < n_book_objs h' \<and> book_id (book_objs h' b) = bid)
   \<and> (\<forall>mid m. members L' mid = Some m \<longrightarrow> m < n_member_objs h')"
proof -
  assume ops: "list_all default_args ops" and h: "no_objects h"
    and run: "lib_run cy ops (Library_init nm addr, h) = (L', h')"
  from h have "lib_inv (Library_init nm addr, h)" by (rule lib_inv_init)
  then have "lib_inv (lib_run cy ops (Library_init nm addr, h))"
    using ops by (rule lib_inv_run)
  then have inv: "lib_inv (L', h')" by (simp only: run)
  then have "availability_invariant L' h'" by (rule lib_inv_availability)
  moreover from inv
  have "\<forall>bid b. books L' bid = Some b \<longrightarrow> b < n_book_objs h' \<and> book_id (book_objs h' b) = bid"
    and "\<forall>mid m. members L' mid = Some m \<longrightarrow> m < n_member_objs h'"
    unfolding lib_inv_def by simp_all
  ultimately show ?thesis by blast
qed

theorem availability_default_construction_witness:
  "list_all default_args (scenario_ops ''B001'' ''M001'')
   \<and> no_objects empty_heap
   \<and> availability_invariant (fst (scenario ''B001'' ''M001'')) (snd (scenario ''B001'' ''M001''))
   \<and> books (fst (scenario ''B001'' ''M001'')) ''B001'' = Some 0
   \<and> \<not> is_available (book_objs (snd (scenario ''B001'' ''M001'')) 0)
   \<and> holders (snd (scenario ''B001'' ''M001'')) ''B001'' = [0]
   \<and> list_all default_args (scenario_ops ''B001'' ''M001'' @ [ReturnBookOp ''B001'' ''M001''])
   \<and> availability_invariant
        (fst (lib_run 2024 (scenario_ops ''B001'' ''M001'' @ [ReturnBookOp ''B001'' ''M001''])
           (Library_init ''City Public Library'' ''123 Main St, Anytown'', empty_heap)))
        (snd (lib_run 2024 (scenario_ops ''B001'' ''M001'' @ [ReturnBookOp ''B001'' ''M001''])
           (Library_init ''City Public Library'' ''123 Main St, Anytown'', empty_heap)))"
proof -
  let ?init = "(Library_init ''City Public Library'' ''123 Main St, Anytown'', empty_heap)"
  let ?ops2 = "scenario_ops ''B001'' ''M001'' @ [ReturnBookOp ''B001'' ''M001'']"
  have d1: "list_all default_args (scenario_ops ''B001'' ''M001'')"
    by (simp add: scenario_ops_def)
  have d2: "list_all default_args ?ops2"
    by (simp add: scenario_ops_def)
  have e: "no_objects empty_heap"
    by (simp add: no_objects_def empty_heap_def)
  have r1: "lib_run 2024 (scenario_ops ''B001'' ''M001'') ?init
      = (fst (scenario ''B001'' ''M001''), snd (scenario ''B001'' ''M001''))"
    by (simp add: scenario_def)
  have r2: "lib_run 2024 ?ops2 ?init = (fst (lib_run 2024 ?ops2 ?init), snd (lib_run 2024 ?ops2 ?init))"
    by simp
  have "availability_invariant (fst (scenario ''B001'' ''M001'')) (snd (scenario ''B001'' ''M001''))"
    using availability_default_construction [OF d1 e r1] by blast
  moreover have "availability_invariant (fst (lib_run 2024 ?ops2 ?init)) (snd (lib_run 2024 ?ops2 ?init))"
    using availability_default_construction [OF d2 e r2] by blast
  moreover have "books (fst (scenario ''B001'' ''M001'')) ''B001'' = Some 0"
    by (simp add: scenario_state)
  moreover have "\<not> is_available (book_objs (snd (scenario ''B001'' ''M001'')) 0)"
    by (simp add: scenario_state)
  moreover have "holders (snd (scenario ''B001'' ''M001'')) ''B001'' = [0]"
    by (simp add: scenario_state holders_def)
  ultimately show ?thesis using d1 d2 e by blast
qed

text \<open>
  Claim C4, as stated: after construction and any sequence of \<^verbatim>\<open>borrow_book\<close> and
  \<^verbatim>\<open>return_book\<close> calls a held list has at most 3 entries and no duplicates. The
  constructor stores whatever list it is given, four entries for instance; and a
  member constructed with the default who borrows two book objects with the same
  identifier holds that identifier twice.
\<close>

theorem held_list_counterexample:
  "Member_init ''M001'' ''John Smith'' ''john@example.com''
       (Some [''B001'', ''B002'', ''B003'', ''B004''])
     = Inr \<lparr>member_id = ''M001'', name = ''John Smith'', email = ''john@example.com'',
            books_borrowed = [''B001'', ''B002'', ''B003'', ''B004'']\<rparr>
   \<and> books_borrowed (member_objs two_copies 0) = []
   \<and> books_borrowed (member_objs (do_calls [BorrowBook 0 0, BorrowBook 0 1] two_copies) 0)
       = [''B001'', ''B001'']"
  by (simp add: two_copies_def eval_defs)


text \<open>
  Claim C4, amended: a member constructed without \<^verbatim>\<open>books_borrowed\<close> holds nothing; a
  held list of at most 3 entries has at most 3 entries after any sequence of
  \<^verbatim>\<open>borrow_book\<close> and \<^verbatim>\<open>return_book\<close> calls (on any members and books); if the members
  that are called all start with an empty held list and the books that are passed have
  pairwise different identifiers, every held list stays free of duplicates; and
  \<^verbatim>\<open>borrow_book\<close> on a member holding 3 books or more returns \<^verbatim>\<open>False\<close> and changes
  nothing.
\<close>

theorem held_list_bounded:
  "(Member_init mid nm e None = Inr mem \<longrightarrow> books_borrowed mem = [])
   \<and> (length (books_borrowed (member_objs h m)) \<le> 3 \<longrightarrow>
        length (books_borrowed (member_objs (do_calls cs h) m)) \<le> 3)
   \<and> ((\<forall>x \<in> call_member ` set cs. books_borrowed (member_objs h x) = [])
        \<and> inj_on (\<lambda>b. book_id (book_objs h b)) (call_book ` set cs) \<longrightarrow>
        (\<forall>x \<in> call_member ` set cs. distinct (books_borrowed (member_objs (do_calls cs h) x))))
   \<and> (3 \<le> length (books_borrowed (member_objs h m)) \<longrightarrow> borrow_book_at m b h = (False, h))"
proof -
  have "Member_init mid nm e None = Inr mem \<longrightarrow> books_borrowed mem = []"
    by (auto simp: Member_init_def split: if_splits)
  moreover have "length (books_borrowed (member_objs h m)) \<le> 3 \<longrightarrow>
        length (books_borrowed (member_objs (do_calls cs h) m)) \<le> 3"
    by (simp add: do_calls_length)
  moreover have "(\<forall>x \<in> call_member ` set cs. books_borrowed (member_objs h x) = [])
        \<and> inj_on (\<lambda>b. book_id (book_objs h b)) (call_book ` set cs) \<longrightarrow>
        (\<forall>x \<in> call_member ` set cs. distinct (books_borrowed (member_objs (do_calls cs h) x)))"
  proof
    assume a: "(\<forall>x \<in> call_member ` set cs. books_borrowed (member_objs h x) = [])
        \<and> inj_on (\<lambda>b. book_id (book_objs h b)) (call_book ` set cs)"
    then have "held_inv (call_member ` set cs) (call_book ` set cs) h"
      by (simp add: held_inv_def)
    then have "held_inv (call_member ` set cs) (call_book ` set cs) (do_calls cs h)"
      by (rule held_inv_do_calls) simp_all
    then show "\<forall>x \<in> call_member ` set cs. distinct (books_borrowed (member_objs (do_calls cs h) x))"
      unfolding held_inv_def by blast
  qed
  moreover have "3 \<le> length (books_borrowed (member_objs h m)) \<longrightarrow>
      borrow_book_at m b h = (False, h)"
    by (simp add: borrow_book_at_result)
  ultimately show ?thesis by blast
qed


theorem held_list_bounded_witness:
  "Member_init ''M001'' ''John Smith'' ''john@example.com'' None
     = Inr \<lparr>member_id = ''M001'', name = ''John Smith'', email = ''john@example.com'',
            books_borrowed = []\<rparr>
   \<and> books_borrowed (member_objs four_books 0) = []
   \<and> map (\<lambda>b. book_id (book_objs four_books b)) [0, 1, 2, 3] = [''B001'', ''B002'', ''B003'', ''B004'']
   \<and> books_borrowed (member_objs
        (do_calls [BorrowBook 0 0, BorrowBook 0 1, BorrowBook 0 2, BorrowBook 0 3,
                   ReturnBook 0 1, BorrowBook 0 3] four_books) 0) = [''B001'', ''B003'', ''B004'']
   \<and> length (books_borrowed (member_objs
        (do_calls [BorrowBook 0 0, BorrowBook 0 1, BorrowBook 0 2, BorrowBook 0 3,
                   ReturnBook 0 1, BorrowBook 0 3] four_books) 0)) \<le> 3
   \<and> distinct (books_borrowed (member_objs
        (do_calls [BorrowBook 0 0, BorrowBook 0 1, BorrowBook 0 2, BorrowBook 0 3,
                   ReturnBook 0 1, BorrowBook 0 3] four_books) 0))
   \<and> 3 \<le> length (books_borrowed (member_objs
        (do_calls [BorrowBook 0 0, BorrowBook 0 1, BorrowBook 0 2] four_books) 0))
   \<and> borrow_book_at 0 3 (do_calls [BorrowBook 0 0, BorrowBook 0 1, BorrowBook 0 2] four_books)
       = (False, do_calls [BorrowBook 0 0, BorrowBook 0 1, BorrowBook 0 2] four_books)"
proof -
  let ?cs = "[BorrowBook 0 0, BorrowBook 0 1, BorrowBook 0 2, BorrowBook 0 3,
              ReturnBook 0 1, BorrowBook 0 3]"
  let ?h3 = "do_calls [BorrowBook 0 0, BorrowBook 0 1, BorrowBook 0 2] four_books"
  have init: "Member_init ''M001'' ''John Smith'' ''john@example.com'' None
     = Inr \<lparr>member_id = ''M001'', name = ''John Smith'', email = ''john@example.com'',
            books_borrowed = []\<rparr>"
    by (simp add: Member_init_def email_rejected_def split_on_def)
  have empty: "books_borrowed (member_objs four_books 0) = []"
    by (simp add: four_books_def eval_defs)
  have ids: "map (\<lambda>b. book_id (book_objs four_books b)) [0, 1, 2, 3]
      = [''B001'', ''B002'', ''B003'', ''B004'']"
    by (simp add: four_books_def eval_defs)
  have members: "\<forall>x \<in> call_member ` set ?cs. books_borrowed (member_objs four_books x) = []"
    using empty by simp
  have "inj_on (\<lambda>b. book_id (book_objs four_books b)) {0, 1, 2, 3}"
    using ids by (simp add: inj_on_def)
  moreover have "call_book ` set ?cs = {0, 1, 2, 3}" by auto
  ultimately have inj: "inj_on (\<lambda>b. book_id (book_objs four_books b)) (call_book ` set ?cs)"
    by simp
  have final: "books_borrowed (member_objs (do_calls ?cs four_books) 0) = [''B001'', ''B003'', ''B004'']"
    by (simp add: four_books_def eval_defs)
  have three: "3 \<le> length (books_borrowed (member_objs ?h3 0))"
    by (simp add: four_books_def eval_defs)
  from held_list_bounded [of "''M001''" "''John Smith''" "''john@example.com''" _ four_books 0 ?cs]
    empty members inj
  have "length (books_borrowed (member_objs (do_calls ?cs four_books) 0)) \<le> 3"
    and "distinct (books_borrowed (member_objs (do_calls ?cs four_books) 0))"
    by simp_all
  moreover from held_list_bounded [of "''M001''" "''John Smith''" "''john@example.com''" _ ?h3 0 "[]" 3]
    three
  have "borrow_book_at 0 3 ?h3 = (False, ?h3)" by blast
  ultimately show ?thesis using init empty ids final three by blast
qed


end
